theory Spec2Isabelle
  imports Main
begin

section \<open>Python strings\<close>

text \<open>
  The program works on Python \<open>str\<close> values: sequences of Unicode code points. One of
  the two reference markers is Japanese, so a string is modelled as the list of its code
  points (natural numbers), not as a list of 8-bit characters. \<open>py\<close> writes an ASCII
  literal.
\<close>

type_synonym pystr = "nat list"

definition py :: "string \<Rightarrow> pystr" where
  "py cs = map of_char cs"

text \<open>The code points for which \<open>str.isspace\<close> holds; \<open>str.strip\<close> removes exactly these.\<close>

definition is_space :: "nat \<Rightarrow> bool" where
  "is_space c \<longleftrightarrow>
     (9 \<le> c \<and> c \<le> 13) \<or> (28 \<le> c \<and> c \<le> 32) \<or> c = 133 \<or> c = 160 \<or> c = 5760 \<or>
     (8192 \<le> c \<and> c \<le> 8202) \<or> c = 8232 \<or> c = 8233 \<or> c = 8239 \<or> c = 8287 \<or> c = 12288"

text \<open>The code points at which \<open>str.splitlines\<close> ends a line.\<close>

definition is_linebreak :: "nat \<Rightarrow> bool" where
  "is_linebreak c \<longleftrightarrow>
     (10 \<le> c \<and> c \<le> 13) \<or> (28 \<le> c \<and> c \<le> 30) \<or> c = 133 \<or> c = 8232 \<or> c = 8233"

definition lstrip :: "pystr \<Rightarrow> pystr" where
  "lstrip s = dropWhile is_space s"

definition rstrip :: "pystr \<Rightarrow> pystr" where
  "rstrip s = rev (dropWhile is_space (rev s))"

definition strip :: "pystr \<Rightarrow> pystr" where
  "strip s = rstrip (lstrip s)"

text \<open>\<open>s.isspace()\<close>: at least one character, and all of them whitespace.\<close>

definition isspace :: "pystr \<Rightarrow> bool" where
  "isspace s \<longleftrightarrow> s \<noteq> [] \<and> list_all is_space s"

fun startswith :: "pystr \<Rightarrow> pystr \<Rightarrow> bool" where
  "startswith s [] = True"
| "startswith [] (p # ps) = False"
| "startswith (c # cs) (p # ps) = (c = p \<and> startswith cs ps)"

text \<open>\<open>s.replace(old, new, 1)\<close>: the leftmost occurrence of \<open>old\<close> is replaced, if any.\<close>

fun replace_once :: "pystr \<Rightarrow> pystr \<Rightarrow> pystr \<Rightarrow> pystr" where
  "replace_once [] old new = (if old = [] then new else [])"
| "replace_once (c # cs) old new =
     (if startswith (c # cs) old then new @ drop (length old) (c # cs)
      else c # replace_once cs old new)"

text \<open>
  \<open>s.splitlines(keepends)\<close>: a line runs up to the next line break; \<open>\r\n\<close> is one
  break; the break is kept with the line when \<open>keepends\<close> is set; no empty last line
  follows a final break.
\<close>

function splitlines :: "bool \<Rightarrow> pystr \<Rightarrow> pystr list" where
  "splitlines keepends [] = []"
| "splitlines keepends (c # cs) =
     (let line = takeWhile (\<lambda>x. \<not> is_linebreak x) (c # cs);
          rest = dropWhile (\<lambda>x. \<not> is_linebreak x) (c # cs)
      in case rest of
           [] \<Rightarrow> [line]
         | [b] \<Rightarrow> [line @ (if keepends then [b] else [])]
         | b # b' # bs \<Rightarrow>
             if b = 13 \<and> b' = 10
             then (line @ (if keepends then [b, b'] else [])) # splitlines keepends bs
             else (line @ (if keepends then [b] else [])) # splitlines keepends (b' # bs))"
  by pat_completeness auto

lemma dropWhile_tail_shorter:
  "dropWhile P xs = b # bs \<Longrightarrow> length bs < length xs"
  using length_dropWhile_le [of P xs] by simp

termination splitlines
proof (relation "measure (\<lambda>(k, s). length s)", goal_cases)
  case 1
  show ?case by simp
next
  case (2 keepends c cs line rest b list b' bs)
  then have "length (b' # bs) < length (c # cs)"
    using dropWhile_tail_shorter by metis
  then show ?case by simp
next
  case (3 keepends c cs line rest b list b' bs)
  then have "length (b' # bs) < length (c # cs)"
    using dropWhile_tail_shorter by metis
  then show ?case by simp
qed

declare splitlines.simps(2) [simp del]

text \<open>
  \<open>textwrap.indent(text, prefix)\<close> with the default predicate: the prefix goes before
  every line of \<open>text.splitlines(True)\<close> that does not consist solely of whitespace.
\<close>

definition textwrap_indent :: "pystr \<Rightarrow> pystr \<Rightarrow> pystr" where
  "textwrap_indent text prefix =
     concat (map (\<lambda>line. if isspace line then line else prefix @ line) (splitlines True text))"

section \<open>The regular expression of the candidate iterator\<close>

text \<open>
  \<open>pattern = r"\(.*\)$"\<close>, without flags: \<open>.\<close> matches every character but the newline,
  \<open>.*\<close> is greedy, and \<open>$\<close> matches at the end of the string and just before a newline
  that ends the string.

  \<open>match_rest s\<close> matches \<open>.*\)$\<close> at the start of \<open>s\<close> as the backtracking matcher does:
  it first lets \<open>.*\<close> take the next character, and only when the rest cannot match does it
  try to close the group here. The result is the number of characters matched.
\<close>

fun match_rest :: "pystr \<Rightarrow> nat option" where
  "match_rest [] = None"
| "match_rest (c # cs) =
     (case (if c \<noteq> 10 then match_rest cs else None) of
        Some n \<Rightarrow> Some (Suc n)
      | None \<Rightarrow> if c = 41 \<and> (cs = [] \<or> cs = [10]) then Some 1 else None)"

text \<open>\<open>re.search(pattern, s)\<close>: the span \<open>(start, end)\<close> of the leftmost match.\<close>

fun re_search :: "pystr \<Rightarrow> (nat \<times> nat) option" where
  "re_search [] = None"
| "re_search (c # cs) =
     (case (if c = 40 then match_rest cs else None) of
        Some n \<Rightarrow> Some (0, Suc n)
      | None \<Rightarrow> map_option (\<lambda>(i, j). (Suc i, Suc j)) (re_search cs))"

lemma match_rest_bound: "match_rest s = Some n \<Longrightarrow> 0 < n \<and> n \<le> length s"
  by (induction s arbitrary: n) (auto split: if_splits option.splits)

lemma re_search_span: "re_search s = Some (i, j) \<Longrightarrow> i < j \<and> j \<le> length s"
proof (induction s arbitrary: i j)
  case Nil
  then show ?case by simp
next
  case (Cons c cs)
  show ?case
  proof (cases "if c = 40 then match_rest cs else None")
    case (Some n)
    with Cons.prems match_rest_bound [of cs n] show ?thesis
      by (auto split: if_splits)
  next
    case None
    with Cons.prems obtain i' j' where "re_search cs = Some (i', j')" "i = Suc i'" "j = Suc j'"
      by auto
    with Cons.IH [of i' j'] show ?thesis by simp
  qed
qed

text \<open>
  \<open>re.sub(pattern, "", s)\<close>: every match is removed, the search going on behind each
  match. The pattern looks at nothing before its opening parenthesis, so the search behind
  a match is the search in the rest of the string.
\<close>

function re_sub :: "pystr \<Rightarrow> pystr" where
  "re_sub s = (case re_search s of
                 None \<Rightarrow> s
               | Some (i, j) \<Rightarrow> take i s @ re_sub (drop j s))"
  by pat_completeness auto

termination re_sub
proof (relation "measure length", goal_cases)
  case 1
  show ?case by simp
next
  case (2 s x2 i j)
  then have "re_search s = Some (i, j)" by simp
  from re_search_span [OF this] have "i < j" "j \<le> length s" by simp_all
  then have "length (drop j s) < length s" by simp
  then show ?case by simp
qed

declare re_sub.simps [simp del]

section \<open>The extractor and the candidate names\<close>

definition prefixes :: "pystr list" where
  "prefixes = [py ''Shared step:'', [20849, 26377, 12473, 12486, 12483, 12503, 58]]"

fun extract_with :: "pystr list \<Rightarrow> pystr \<Rightarrow> pystr" where
  "extract_with [] s = []"
| "extract_with (prefix # ps) s =
     (if startswith s prefix then replace_once s prefix [] else extract_with ps s)"

definition extract_shared_step_name :: "pystr \<Rightarrow> pystr" where
  "extract_shared_step_name step = extract_with prefixes (strip step)"

text \<open>Each substitution that finds a match makes the text shorter, so the loop ends.\<close>

lemma re_sub_length: "length (re_sub s) \<le> length s"
proof (induction s rule: re_sub.induct)
  case (1 s)
  show ?case
  proof (cases "re_search s")
    case None
    then show ?thesis by (simp add: re_sub.simps [of s])
  next
    case (Some span)
    obtain i j where span: "span = (i, j)" by (cases span)
    from "1" [OF Some span [symmetric]] have "length (re_sub (drop j s)) \<le> length s - j"
      by simp
    moreover from re_search_span [of s i j] Some span have "i < j" "j \<le> length s"
      by simp_all
    ultimately show ?thesis using Some span by (simp add: re_sub.simps [of s])
  qed
qed

lemma re_sub_shorter: "re_search s \<noteq> None \<Longrightarrow> length (re_sub s) < length s"
proof -
  assume "re_search s \<noteq> None"
  then obtain i j where span: "re_search s = Some (i, j)" by auto
  from re_search_span [OF span] have ij: "i < j" "j \<le> length s" by simp_all
  have "length (re_sub (drop j s)) \<le> length s - j"
    using re_sub_length [of "drop j s"] by simp
  with span ij show ?thesis by (simp add: re_sub.simps [of s])
qed

text \<open>
  The generator \<open>shared_step_name_candidate_iterator\<close> yields finitely many names, and
  its only consumer reads them in order, so it is modelled by the list of what it yields.
  \<open>candidates_loop\<close> is its \<open>while\<close> loop: the text that is searched and cut is
  \<open>current_text\<close> itself; only the yielded copy is stripped.
\<close>

function candidates_loop :: "pystr \<Rightarrow> pystr list" where
  "candidates_loop current_text =
     (if re_search current_text \<noteq> None
      then strip (re_sub current_text) # candidates_loop (re_sub current_text)
      else [])"
  by pat_completeness auto

termination candidates_loop
  by (relation "measure length") (simp_all add: re_sub_shorter)

declare candidates_loop.simps [simp del]

definition shared_step_name_candidate_iterator :: "pystr \<Rightarrow> pystr list" where
  "shared_step_name_candidate_iterator shared_step_name =
     strip shared_step_name # candidates_loop shared_step_name"

section \<open>The expansion engine\<close>

text \<open>
  A fetched record, with the keys the program reads (\<open>number\<close>, \<open>name\<close>,
  \<open>human_readable_steps\<close>) and the one it adds to a test case (\<open>total_step_count\<close>).
\<close>

record api_record =
  number :: int
  name :: pystr
  human_readable_steps :: pystr
  total_step_count :: "nat option"

type_synonym name_map = "pystr \<rightharpoonup> api_record"

text \<open>
  The \<open>for\<close> loop of \<open>expand_shared_step\<close>, up to its \<open>return\<close>: the record of the
  first candidate that is a key of the map.
\<close>

fun first_known_candidate :: "pystr list \<Rightarrow> name_map \<Rightarrow> api_record option" where
  "first_known_candidate [] shared_step_name_map = None"
| "first_known_candidate (candidate # rest) shared_step_name_map =
     (case shared_step_name_map candidate of
        None \<Rightarrow> first_known_candidate rest shared_step_name_map
      | Some shared_step \<Rightarrow> Some shared_step)"

text \<open>
  The expansion recurses into the steps of every group it resolves, without a guard: on a
  group that refers to itself it does not return. The first argument bounds the depth of
  the calls of \<open>human_readable_steps_with_shared_steps_expanded\<close>; \<open>None\<close> is a run that
  needs a deeper recursion than that. \<open>expand_steps\<close> is the \<open>for\<close> loop over the lines,
  with \<open>res\<close> as its accumulator.
\<close>

fun human_readable_steps_with_shared_steps_expanded :: "nat \<Rightarrow> pystr \<Rightarrow> name_map \<Rightarrow> pystr option"
  and expand_steps :: "nat \<Rightarrow> pystr list \<Rightarrow> name_map \<Rightarrow> pystr \<Rightarrow> pystr option"
  and expand_shared_step :: "nat \<Rightarrow> pystr \<Rightarrow> name_map \<Rightarrow> nat \<Rightarrow> pystr option"
where
  "human_readable_steps_with_shared_steps_expanded 0 text shared_step_name_map = None"
| "human_readable_steps_with_shared_steps_expanded (Suc depth) text shared_step_name_map =
     expand_steps depth (splitlines False text) shared_step_name_map []"
| "expand_steps depth [] shared_step_name_map res = Some res"
| "expand_steps depth (step # steps) shared_step_name_map res =
     (if extract_shared_step_name step \<noteq> []
      then (case expand_shared_step depth (extract_shared_step_name step) shared_step_name_map
                   (2 + length step - length (lstrip step)) of
              None \<Rightarrow> None
            | Some expansion \<Rightarrow>
                expand_steps depth steps shared_step_name_map (res @ step @ [10] @ expansion))
      else expand_steps depth steps shared_step_name_map (res @ step @ [10]))"
| "expand_shared_step depth shared_step_name shared_step_name_map indent =
     (case first_known_candidate (shared_step_name_candidate_iterator shared_step_name)
             shared_step_name_map of
        None \<Rightarrow> Some []
      | Some shared_step \<Rightarrow>
          map_option (\<lambda>expanded. textwrap_indent expanded (replicate indent 32))
            (human_readable_steps_with_shared_steps_expanded depth
               (human_readable_steps shared_step) shared_step_name_map))"

section \<open>The step counter\<close>

definition calculate_total_step_count :: "pystr \<Rightarrow> nat" where
  "calculate_total_step_count expanded_human_readable_steps =
     length (filter (\<lambda>step. extract_shared_step_name step = [])
               (splitlines False expanded_human_readable_steps))"

section \<open>The API client\<close>

text \<open>
  \<open>str(n)\<close> for an integer: its decimal digits, with a minus sign for a negative one.
\<close>

function str_nat :: "nat \<Rightarrow> pystr" where
  "str_nat n = (if n < 10 then [48 + n] else str_nat (n div 10) @ [48 + n mod 10])"
  by pat_completeness auto

termination str_nat
  by (relation "measure id") simp_all

declare str_nat.simps [simp del]

definition str_int :: "int \<Rightarrow> pystr" where
  "str_int i = (if i < 0 then 45 # str_nat (nat (- i)) else str_nat (nat i))"

text \<open>
  What \<open>urllib.request.urlopen\<close> and \<open>json.loads\<close> come to inside \<open>_make_api_request\<close>:
  the decoded body, an \<open>HTTPError\<close> with its code and reason, or any other exception with
  its text. The remote service is a parameter: a function from the URL and the state of the
  world to such an outcome and the next state. A list URL is answered with a page of
  records (the value under \<open>"shared_steps"\<close> or \<open>"test_cases"\<close>), a record URL with one
  record; the token and the locale travel in the headers and are part of the service.
\<close>

datatype 'a fetched = Ok 'a | HTTPError int pystr | Failure pystr

record 'w service =
  urlopen_list :: "pystr \<Rightarrow> 'w \<Rightarrow> api_record list fetched \<times> 'w"
  urlopen_record :: "pystr \<Rightarrow> 'w \<Rightarrow> api_record fetched \<times> 'w"

text \<open>
  A response \<open>{"error": False, "data": d}\<close> is \<open>Inr d\<close>, a response
  \<open>{"error": True, "message": m}\<close> is \<open>Inl m\<close>. The only parameters the program sends are
  one name with one integer; \<open>urlencode\<close> leaves their characters as they are.
\<close>

type_synonym 'a response = "pystr + 'a"

definition BASE_URL :: pystr where
  "BASE_URL = py ''https://app.magicpod.com/api/v1.0''"

definition make_api_request ::
  "(pystr \<Rightarrow> 'w \<Rightarrow> 'a fetched \<times> 'w) \<Rightarrow> pystr \<Rightarrow> (pystr \<times> int) option \<Rightarrow> 'w \<Rightarrow> 'a response \<times> 'w"
where
  "make_api_request urlopen url params w =
     (let url = (case params of
                   None \<Rightarrow> url
                 | Some (key, v) \<Rightarrow> url @ py ''?'' @ key @ py ''='' @ str_int v)
      in case urlopen url w of
           (Ok data, w') \<Rightarrow> (Inr data, w')
         | (HTTPError code reason, w') \<Rightarrow>
             (Inl (py ''Error: '' @ url @ py '' - '' @ str_int code @ py '' - '' @ reason), w')
         | (Failure e, w') \<Rightarrow> (Inl (py ''Error: '' @ url @ py '' - '' @ e), w'))"

definition get_shared_steps ::
  "'w service \<Rightarrow> pystr \<Rightarrow> pystr \<Rightarrow> (pystr \<times> int) option \<Rightarrow> 'w \<Rightarrow> api_record list response \<times> 'w"
where
  "get_shared_steps self organization_name project_name params =
     make_api_request (urlopen_list self)
       (BASE_URL @ py ''/'' @ organization_name @ py ''/'' @ project_name @ py ''/shared-steps/'')
       params"

definition get_shared_step ::
  "'w service \<Rightarrow> pystr \<Rightarrow> pystr \<Rightarrow> int \<Rightarrow> 'w \<Rightarrow> api_record response \<times> 'w"
where
  "get_shared_step self organization_name project_name shared_step_number =
     make_api_request (urlopen_record self)
       (BASE_URL @ py ''/'' @ organization_name @ py ''/'' @ project_name @ py ''/shared-steps/'' @
        str_int shared_step_number @ py ''/'')
       None"

definition get_test_cases ::
  "'w service \<Rightarrow> pystr \<Rightarrow> pystr \<Rightarrow> (pystr \<times> int) option \<Rightarrow> 'w \<Rightarrow> api_record list response \<times> 'w"
where
  "get_test_cases self organization_name project_name params =
     make_api_request (urlopen_list self)
       (BASE_URL @ py ''/'' @ organization_name @ py ''/'' @ project_name @ py ''/test-cases/'')
       params"

definition get_test_case ::
  "'w service \<Rightarrow> pystr \<Rightarrow> pystr \<Rightarrow> int \<Rightarrow> 'w \<Rightarrow> api_record response \<times> 'w"
where
  "get_test_case self organization_name project_name test_case_number =
     make_api_request (urlopen_record self)
       (BASE_URL @ py ''/'' @ organization_name @ py ''/'' @ project_name @ py ''/test-cases/'' @
        str_int test_case_number @ py ''/'')
       None"

text \<open>
  The \<open>while True\<close> loop of \<open>get_full_shared_steps\<close> and of \<open>get_full_test_cases\<close>: the two
  loops differ in the request only, which is the parameter \<open>fetch_page\<close>. The loop runs as
  long as the service returns pages with items; the first argument bounds the number of
  requests, and \<open>None\<close> is a run that needs more. An error response leaves the function
  (\<open>return res\<close>), an empty page leaves the loop (\<open>break\<close>).
\<close>

fun paged_loop ::
  "nat \<Rightarrow> (int \<Rightarrow> 'w \<Rightarrow> api_record list response \<times> 'w) \<Rightarrow> int \<Rightarrow> api_record list \<Rightarrow> 'w
   \<Rightarrow> (api_record list response \<times> 'w) option"
where
  "paged_loop 0 fetch_page min_number all_items w = None"
| "paged_loop (Suc fuel) fetch_page min_number all_items w =
     (case fetch_page min_number w of
        (Inl message, w') \<Rightarrow> Some (Inl message, w')
      | (Inr items, w') \<Rightarrow>
          if length items \<le> 0 then Some (Inr all_items, w')
          else paged_loop fuel fetch_page (number (last items) + 1) (all_items @ items) w')"

text \<open>The loop with its initialisation: the cursor starts at 1, nothing is collected yet.\<close>

definition collect_pages ::
  "nat \<Rightarrow> (int \<Rightarrow> 'w \<Rightarrow> api_record list response \<times> 'w) \<Rightarrow> 'w
   \<Rightarrow> (api_record list response \<times> 'w) option"
where
  "collect_pages fuel fetch_page w = paged_loop fuel fetch_page 1 [] w"

text \<open>The page request of each of the two loops, as a function of the cursor.\<close>

definition shared_steps_page ::
  "'w service \<Rightarrow> pystr \<Rightarrow> pystr \<Rightarrow> int \<Rightarrow> 'w \<Rightarrow> api_record list response \<times> 'w"
where
  "shared_steps_page self organization_name project_name min_shared_step_number =
     get_shared_steps self organization_name project_name
       (Some (py ''min_shared_step_number'', min_shared_step_number))"

definition test_cases_page ::
  "'w service \<Rightarrow> pystr \<Rightarrow> pystr \<Rightarrow> int \<Rightarrow> 'w \<Rightarrow> api_record list response \<times> 'w"
where
  "test_cases_page self organization_name project_name min_test_case_number =
     get_test_cases self organization_name project_name
       (Some (py ''min_test_case_number'', min_test_case_number))"

text \<open>The \<open>for\<close> loop over the numbers, one request for each.\<close>

fun fetch_each ::
  "(int \<Rightarrow> 'w \<Rightarrow> api_record response \<times> 'w) \<Rightarrow> int list \<Rightarrow> api_record list \<Rightarrow> 'w
   \<Rightarrow> api_record list response \<times> 'w"
where
  "fetch_each fetch_one [] records w = (Inr records, w)"
| "fetch_each fetch_one (n # numbers) records w =
     (case fetch_one n w of
        (Inl message, w') \<Rightarrow> (Inl message, w')
      | (Inr data, w') \<Rightarrow> fetch_each fetch_one numbers (records @ [data]) w')"

definition get_full_shared_steps ::
  "nat \<Rightarrow> 'w service \<Rightarrow> pystr \<Rightarrow> pystr \<Rightarrow> 'w \<Rightarrow> (api_record list response \<times> 'w) option"
where
  "get_full_shared_steps fuel self organization_name project_name w =
     (case collect_pages fuel (shared_steps_page self organization_name project_name) w of
        None \<Rightarrow> None
      | Some (Inl message, w') \<Rightarrow> Some (Inl message, w')
      | Some (Inr all_shared_steps, w') \<Rightarrow>
          Some (fetch_each (get_shared_step self organization_name project_name)
                  (map number all_shared_steps) [] w'))"

definition get_full_test_cases ::
  "nat \<Rightarrow> 'w service \<Rightarrow> pystr \<Rightarrow> pystr \<Rightarrow> int list option \<Rightarrow> 'w
   \<Rightarrow> (api_record list response \<times> 'w) option"
where
  "get_full_test_cases fuel self organization_name project_name test_case_numbers w =
     (case test_case_numbers of
        Some numbers \<Rightarrow>
          Some (fetch_each (get_test_case self organization_name project_name) numbers [] w)
      | None \<Rightarrow>
          (case collect_pages fuel (test_cases_page self organization_name project_name) w of
             None \<Rightarrow> None
           | Some (Inl message, w') \<Rightarrow> Some (Inl message, w')
           | Some (Inr all_test_cases, w') \<Rightarrow>
               Some (fetch_each (get_test_case self organization_name project_name)
                       (map number all_test_cases) [] w')))"

section \<open>The command\<close>

text \<open>
  What a run of \<open>_main\<close> leaves behind: \<open>logger.error(message)\<close> and \<open>exit(1)\<close>, or the
  test cases printed as JSON on the standard output.
\<close>

datatype outcome = Exit int pystr | Printed "api_record list"

text \<open>The dictionary comprehension: a later record replaces an earlier one of the same name.\<close>

fun name_map_of :: "api_record list \<Rightarrow> name_map \<Rightarrow> name_map" where
  "name_map_of [] m = m"
| "name_map_of (shared_step # shared_steps) m =
     name_map_of shared_steps (m(name shared_step \<mapsto> shared_step))"

fun expand_test_cases :: "nat \<Rightarrow> api_record list \<Rightarrow> name_map \<Rightarrow> api_record list option" where
  "expand_test_cases depth [] shared_step_name_map = Some []"
| "expand_test_cases depth (test_case # test_cases) shared_step_name_map =
     (case human_readable_steps_with_shared_steps_expanded depth
             (human_readable_steps test_case) shared_step_name_map of
        None \<Rightarrow> None
      | Some expanded \<Rightarrow>
          (case expand_test_cases depth test_cases shared_step_name_map of
             None \<Rightarrow> None
           | Some rest \<Rightarrow>
               Some (test_case\<lparr>human_readable_steps := expanded,
                                total_step_count := Some (calculate_total_step_count expanded)\<rparr>
                     # rest)))"

definition main_body ::
  "nat \<Rightarrow> 'w service \<Rightarrow> pystr \<Rightarrow> pystr \<Rightarrow> int list option \<Rightarrow> 'w \<Rightarrow> (outcome \<times> 'w) option"
where
  "main_body fuel client organization_name project_name test_case_numbers w =
     (case get_full_shared_steps fuel client organization_name project_name w of
        None \<Rightarrow> None
      | Some (Inl message, w') \<Rightarrow> Some (Exit 1 message, w')
      | Some (Inr shared_steps, w') \<Rightarrow>
          (case get_full_test_cases fuel client organization_name project_name
                  test_case_numbers w' of
             None \<Rightarrow> None
           | Some (Inl message, w'') \<Rightarrow> Some (Exit 1 message, w'')
           | Some (Inr test_cases, w'') \<Rightarrow>
               (case expand_test_cases fuel test_cases (name_map_of shared_steps Map.empty) of
                  None \<Rightarrow> None
                | Some expanded \<Rightarrow> Some (Printed expanded, w''))))"

section \<open>Vocabulary of the statements\<close>

text \<open>
  Lines: a line without a line break in it, a list of lines written out with one newline
  after each line, a text that has this form, and what \<open>textwrap.indent\<close> does to one
  line.
\<close>

definition no_break :: "pystr \<Rightarrow> bool" where
  "no_break l = list_all (\<lambda>c. \<not> is_linebreak c) l"

definition unlines :: "pystr list \<Rightarrow> pystr" where
  "unlines ls = concat (map (\<lambda>l. l @ [10]) ls)"

definition lines_form :: "pystr \<Rightarrow> bool" where
  "lines_form t \<longleftrightarrow> (\<exists>ls. list_all no_break ls \<and> t = unlines ls)"

definition indent_line :: "pystr \<Rightarrow> pystr \<Rightarrow> pystr" where
  "indent_line prefix l = (if list_all is_space l then l else prefix @ l)"

text \<open>
  The groups a text refers to: for each of its lines on which the extractor yields a name
  that resolves, the group it resolves to.
\<close>

definition referenced :: "name_map \<Rightarrow> pystr \<Rightarrow> api_record list" where
  "referenced m t =
     List.map_filter
       (\<lambda>line. if extract_shared_step_name line \<noteq> []
               then first_known_candidate
                      (shared_step_name_candidate_iterator (extract_shared_step_name line)) m
               else None)
       (splitlines False t)"

text \<open>
  The paging protocol in the words of the specification. A state is the cursor, the items
  collected so far and the state of the service. \<open>next_page\<close> is one request that returns
  items: the cursor goes to the number of the last item plus one, and the items go behind
  those collected. \<open>stops_with\<close> is the request that ends the loop: an empty page, with the
  collected items as the result, or a failed request, with its message. \<open>runs_pages\<close> is a
  run of fewer than \<open>fuel\<close> requests with items followed by such a request.
\<close>

fun next_page ::
  "(int \<Rightarrow> 'w \<Rightarrow> api_record list response \<times> 'w) \<Rightarrow> int \<times> api_record list \<times> 'w
   \<Rightarrow> int \<times> api_record list \<times> 'w"
where
  "next_page fetch_page (cursor, collected, w) =
     (case fetch_page cursor w of
        (Inr items, w') \<Rightarrow> (number (last items) + 1, collected @ items, w')
      | (Inl message, w') \<Rightarrow> (cursor, collected, w'))"

fun page_with_items ::
  "(int \<Rightarrow> 'w \<Rightarrow> api_record list response \<times> 'w) \<Rightarrow> int \<times> api_record list \<times> 'w \<Rightarrow> bool"
where
  "page_with_items fetch_page (cursor, collected, w) =
     (case fetch_page cursor w of
        (Inr items, w') \<Rightarrow> items \<noteq> []
      | (Inl message, w') \<Rightarrow> False)"

fun stops_with ::
  "(int \<Rightarrow> 'w \<Rightarrow> api_record list response \<times> 'w) \<Rightarrow> int \<times> api_record list \<times> 'w
   \<Rightarrow> api_record list response \<times> 'w \<Rightarrow> bool"
where
  "stops_with fetch_page (cursor, collected, w) result =
     (case fetch_page cursor w of
        (Inr items, w') \<Rightarrow> items = [] \<and> result = (Inr collected, w')
      | (Inl message, w') \<Rightarrow> result = (Inl message, w'))"

definition runs_pages ::
  "nat \<Rightarrow> (int \<Rightarrow> 'w \<Rightarrow> api_record list response \<times> 'w) \<Rightarrow> int \<times> api_record list \<times> 'w
   \<Rightarrow> api_record list response \<times> 'w \<Rightarrow> bool"
where
  "runs_pages fuel fetch_page s result \<longleftrightarrow>
     (\<exists>k<fuel. (\<forall>i<k. page_with_items fetch_page ((next_page fetch_page ^^ i) s)) \<and>
               stops_with fetch_page ((next_page fetch_page ^^ k) s) result)"

text \<open>
  Observing a run: the service wrapped so that its state carries the list of the requests
  made so far, each with its URL and, when it failed, the detail of the failure. A run
  \<open>stopped_at_failure\<close> when its last request, and no request before it, failed, and the
  message is the one \<open>_make_api_request\<close> composes from the URL and the detail of that
  request.
\<close>

type_synonym event = "pystr \<times> pystr option"

definition error_detail :: "'a fetched \<Rightarrow> pystr option" where
  "error_detail t =
     (case t of
        Ok data \<Rightarrow> None
      | HTTPError code reason \<Rightarrow> Some (str_int code @ py '' - '' @ reason)
      | Failure e \<Rightarrow> Some e)"

definition logged ::
  "(pystr \<Rightarrow> 'w \<Rightarrow> 'a fetched \<times> 'w) \<Rightarrow> pystr \<Rightarrow> 'w \<times> event list
   \<Rightarrow> 'a fetched \<times> ('w \<times> event list)"
where
  "logged urlopen url s =
     (case s of (w, log) \<Rightarrow>
        (case urlopen url w of (t, w') \<Rightarrow> (t, (w', log @ [(url, error_detail t)]))))"

definition logged_service :: "'w service \<Rightarrow> ('w \<times> event list) service" where
  "logged_service self =
     \<lparr>urlopen_list = logged (urlopen_list self), urlopen_record = logged (urlopen_record self)\<rparr>"

definition no_failure :: "event list \<Rightarrow> bool" where
  "no_failure log \<longleftrightarrow> list_all (\<lambda>ev. snd ev = None) log"

definition stopped_at_failure :: "event list \<Rightarrow> pystr \<Rightarrow> bool" where
  "stopped_at_failure log message \<longleftrightarrow>
     log \<noteq> [] \<and> no_failure (butlast log) \<and>
     (case last log of
        (url, None) \<Rightarrow> False
      | (url, Some detail) \<Rightarrow> message = py ''Error: '' @ url @ py '' - '' @ detail)"

definition verdict :: "'a response \<Rightarrow> event list \<Rightarrow> bool" where
  "verdict r log = (case r of Inl message \<Rightarrow> stopped_at_failure log message | Inr data \<Rightarrow> no_failure log)"

text \<open>
  Two services for the examples: one that answers the list request at cursor 1 with one
  record, numbered 7, and every other list request with the empty page; and one that
  answers the first list request with one record, numbered 1, every later list request
  with the empty page, and fails on every record request.
\<close>

definition one_page_service :: "int \<Rightarrow> nat \<Rightarrow> api_record list response \<times> nat" where
  "one_page_service cursor w =
     (if cursor = 1
      then Inr [\<lparr>number = 7, name = py ''Login'', human_readable_steps = [],
                 total_step_count = None\<rparr>]
      else Inr [], Suc w)"

definition flaky_service :: "nat service" where
  "flaky_service =
     \<lparr>urlopen_list = (\<lambda>url w.
        (if w = 0
         then Ok [\<lparr>number = 1, name = py ''Login'', human_readable_steps = [],
                   total_step_count = None\<rparr>]
         else Ok [], Suc w)),
      urlopen_record = (\<lambda>url w. (Failure (py ''timed out''), Suc w))\<rparr>"

section \<open>Lines and their terminators\<close>

lemma unlines_simps [simp]:
  "unlines [] = []"
  "unlines (l # ls) = l @ 10 # unlines ls"
  by (simp_all add: unlines_def)

lemma unlines_append: "unlines (xs @ ys) = unlines xs @ unlines ys"
  by (simp add: unlines_def)

lemma is_linebreak_10: "is_linebreak 10"
  by (simp add: is_linebreak_def)

lemma splitlines_nonempty:
  "s \<noteq> [] \<Longrightarrow> splitlines k s =
     (let line = takeWhile (\<lambda>x. \<not> is_linebreak x) s;
          rest = dropWhile (\<lambda>x. \<not> is_linebreak x) s
      in case rest of
           [] \<Rightarrow> [line]
         | [b] \<Rightarrow> [line @ (if k then [b] else [])]
         | b # b' # bs \<Rightarrow>
             if b = 13 \<and> b' = 10
             then (line @ (if k then [b, b'] else [])) # splitlines k bs
             else (line @ (if k then [b] else [])) # splitlines k (b' # bs))"
proof (cases s)
  case Nil
  assume "s \<noteq> []"
  with Nil show ?thesis by simp
next
  case (Cons c cs)
  show ?thesis unfolding Cons by (rule splitlines.simps(2))
qed

lemma splitlines_line_nl:
  assumes "no_break l"
  shows "splitlines k (l @ 10 # rest) = (l @ (if k then [10] else [])) # splitlines k rest"
proof -
  from assms have nb: "\<forall>c\<in>set l. \<not> is_linebreak c"
    by (simp add: no_break_def list_all_iff)
  have tw: "takeWhile (\<lambda>x. \<not> is_linebreak x) (l @ 10 # rest) = l"
    using nb is_linebreak_10 by (simp add: takeWhile_append2)
  have dw: "dropWhile (\<lambda>x. \<not> is_linebreak x) (l @ 10 # rest) = 10 # rest"
    using nb is_linebreak_10 by (simp add: dropWhile_append2)
  have "splitlines k (l @ 10 # rest) =
          (case 10 # rest of
             [] \<Rightarrow> [l]
           | [b] \<Rightarrow> [l @ (if k then [b] else [])]
           | b # b' # bs \<Rightarrow>
               if b = 13 \<and> b' = 10
               then (l @ (if k then [b, b'] else [])) # splitlines k bs
               else (l @ (if k then [b] else [])) # splitlines k (b' # bs))"
    by (subst splitlines_nonempty) (simp_all only: tw dw Let_def, simp)
  then show ?thesis
    by (cases rest) simp_all
qed

lemma splitlines_unlines:
  "list_all no_break ls \<Longrightarrow>
   splitlines k (unlines ls) = (if k then map (\<lambda>l. l @ [10]) ls else ls)"
  by (induction ls) (simp_all add: splitlines_line_nl)

lemma splitlines_no_break: "list_all no_break (splitlines False t)"
proof (induction False t rule: splitlines.induct)
  case 1
  show ?case by simp
next
  case (2 c cs)
  define line where "line = takeWhile (\<lambda>x. \<not> is_linebreak x) (c # cs)"
  define rest where "rest = dropWhile (\<lambda>x. \<not> is_linebreak x) (c # cs)"
  have line: "no_break line"
    unfolding no_break_def list_all_iff line_def by (blast dest: set_takeWhileD)
  have eq: "splitlines False (c # cs) =
          (case rest of
             [] \<Rightarrow> [line]
           | [b] \<Rightarrow> [line]
           | b # b' # bs \<Rightarrow>
               if b = 13 \<and> b' = 10 then line # splitlines False bs
               else line # splitlines False (b' # bs))"
    unfolding line_def rest_def
    by (subst splitlines.simps(2)) (simp only: Let_def if_False append_Nil2)
  show ?case
  proof (cases rest)
    case Nil
    with line eq show ?thesis by simp
  next
    case (Cons b r)
    note outer = Cons
    show ?thesis
    proof (cases r)
      case Nil
      with outer line eq show ?thesis by simp
    next
      case (Cons b' bs)
      from outer have dw: "dropWhile (\<lambda>x. \<not> is_linebreak x) (c # cs) = b # r"
        by (simp only: rest_def)
      have ih1: "list_all no_break (splitlines False bs)" if "b = 13 \<and> b' = 10"
        by (rule "2.hyps"(1) [OF refl refl dw Cons that])
      have ih2: "list_all no_break (splitlines False (b' # bs))" if "\<not> (b = 13 \<and> b' = 10)"
        by (rule "2.hyps"(2) [OF refl refl dw Cons that])
      from outer Cons have r: "rest = b # b' # bs" by simp
      show ?thesis
      proof (cases "b = 13 \<and> b' = 10")
        case True
        with ih1 line eq r show ?thesis by simp
      next
        case False
        with ih2 line eq r show ?thesis by simp
      qed
    qed
  qed
qed

lemma splitlines_Nil_iff: "splitlines k t = [] \<longleftrightarrow> t = []"
proof (cases t)
  case Nil
  then show ?thesis by simp
next
  case (Cons c cs)
  have "splitlines k (c # cs) \<noteq> []"
    by (subst splitlines.simps(2))
      (simp add: Let_def split: list.split del: takeWhile.simps dropWhile.simps)
  with Cons show ?thesis by simp
qed

lemma lines_form_iff: "lines_form t \<longleftrightarrow> unlines (splitlines False t) = t"
proof
  assume "lines_form t"
  then obtain ls where "list_all no_break ls" "t = unlines ls"
    by (auto simp: lines_form_def)
  then show "unlines (splitlines False t) = t"
    by (simp add: splitlines_unlines)
next
  assume "unlines (splitlines False t) = t"
  with splitlines_no_break [of t] show "lines_form t"
    unfolding lines_form_def by metis
qed

lemma lines_form_Nil: "lines_form []"
  unfolding lines_form_def by (rule exI [of _ "[]"]) simp

lemma lines_form_append: "lines_form a \<Longrightarrow> lines_form b \<Longrightarrow> lines_form (a @ b)"
proof -
  assume "lines_form a" "lines_form b"
  then obtain xs ys where "list_all no_break xs" "a = unlines xs" "list_all no_break ys" "b = unlines ys"
    by (auto simp: lines_form_def)
  then have "list_all no_break (xs @ ys) \<and> a @ b = unlines (xs @ ys)"
    by (simp add: unlines_append)
  then show ?thesis unfolding lines_form_def by blast
qed

lemma lines_form_line: "no_break l \<Longrightarrow> lines_form (l @ [10])"
  unfolding lines_form_def by (rule exI [of _ "[l]"]) simp

lemma is_space_10: "is_space 10"
  by (simp add: is_space_def)

lemma isspace_line: "isspace (l @ [10]) \<longleftrightarrow> list_all is_space l"
  by (simp add: isspace_def is_space_10)

lemma textwrap_indent_unlines:
  assumes "list_all no_break ls"
  shows "textwrap_indent (unlines ls) prefix = unlines (map (indent_line prefix) ls)"
proof -
  have "splitlines True (unlines ls) = map (\<lambda>l. l @ [10]) ls"
    using assms by (simp add: splitlines_unlines)
  then have "textwrap_indent (unlines ls) prefix =
      concat (map (\<lambda>l. if list_all is_space l then l @ [10] else prefix @ l @ [10]) ls)"
    by (simp add: textwrap_indent_def comp_def isspace_line)
  also have "\<dots> = unlines (map (indent_line prefix) ls)"
    by (induction ls) (simp_all add: indent_line_def)
  finally show ?thesis .
qed

lemma no_break_spaces: "no_break (replicate n 32)"
  by (simp add: no_break_def list_all_iff is_linebreak_def)

lemma no_break_indent_line: "no_break l \<Longrightarrow> no_break (indent_line (replicate n 32) l)"
  using no_break_spaces [of n] by (simp add: indent_line_def no_break_def)

lemma textwrap_indent_lines_form:
  assumes "lines_form t"
  shows "lines_form (textwrap_indent t (replicate n 32))"
proof -
  from assms obtain ls where ls: "list_all no_break ls" "t = unlines ls"
    by (auto simp: lines_form_def)
  have "list_all no_break (map (indent_line (replicate n 32)) ls)"
    using ls(1) by (simp add: list_all_iff no_break_indent_line)
  with ls show ?thesis
    unfolding lines_form_def by (metis textwrap_indent_unlines)
qed

lemma expand_shared_step_lines_form:
  assumes "\<And>text out. human_readable_steps_with_shared_steps_expanded d text m = Some out \<Longrightarrow> lines_form out"
    and "expand_shared_step d nm m indent = Some e"
  shows "lines_form e"
  using assms
  by (auto simp: lines_form_Nil textwrap_indent_lines_form split: option.splits)

lemma expand_steps_lines_form:
  assumes ess: "\<And>nm indent e. expand_shared_step d nm m indent = Some e \<Longrightarrow> lines_form e"
  shows "list_all no_break ls \<Longrightarrow> lines_form res \<Longrightarrow> expand_steps d ls m res = Some out
         \<Longrightarrow> lines_form out"
proof (induction ls arbitrary: res)
  case Nil
  then show ?case by simp
next
  case (Cons step steps)
  from Cons.prems have nb: "no_break step" "list_all no_break steps" by simp_all
  have line: "lines_form (res @ step @ [10])"
    using Cons.prems(2) nb(1) by (simp add: lines_form_append lines_form_line)
  show ?case
  proof (cases "extract_shared_step_name step \<noteq> []")
    case False
    with Cons.prems(3) have "expand_steps d steps m (res @ step @ [10]) = Some out"
      by (simp del: expand_shared_step.simps)
    from Cons.IH [OF nb(2) line this] show ?thesis .
  next
    case True
    with Cons.prems(3) obtain e where
      e: "expand_shared_step d (extract_shared_step_name step) m
            (2 + length step - length (lstrip step)) = Some e"
      and cont: "expand_steps d steps m (res @ step @ [10] @ e) = Some out"
      by (auto simp del: expand_shared_step.simps split: option.splits)
    have "lines_form ((res @ step @ [10]) @ e)"
      using line ess [OF e] by (rule lines_form_append)
    then have "lines_form (res @ step @ [10] @ e)" by simp
    from Cons.IH [OF nb(2) this cont] show ?thesis .
  qed
qed

lemma expanded_lines_form:
  "human_readable_steps_with_shared_steps_expanded d t m = Some out \<Longrightarrow> lines_form out"
proof (induction d arbitrary: t out)
  case 0
  then show ?case by simp
next
  case (Suc d)
  have ess: "\<And>nm indent e. expand_shared_step d nm m indent = Some e \<Longrightarrow> lines_form e"
    using expand_shared_step_lines_form Suc.IH by blast
  from Suc.prems have "expand_steps d (splitlines False t) m [] = Some out"
    by simp
  from expand_steps_lines_form [OF ess splitlines_no_break lines_form_Nil this]
  show ?case .
qed

section \<open>Facts about the expansion loop and the extractor\<close>

lemma expand_steps_reference_free:
  "list_all (\<lambda>l. extract_shared_step_name l = []) ls \<Longrightarrow>
   expand_steps d ls m res = Some (res @ unlines ls)"
  by (induction ls arbitrary: res) simp_all

lemma expand_steps_grows:
  "expand_steps d ls m res = Some out \<Longrightarrow>
   length res \<le> length out \<and> (ls \<noteq> [] \<longrightarrow> length res < length out)"
proof (induction ls arbitrary: res)
  case Nil
  then show ?case by simp
next
  case (Cons step steps)
  show ?case
  proof (cases "extract_shared_step_name step \<noteq> []")
    case False
    with Cons.prems have "expand_steps d steps m (res @ step @ [10]) = Some out"
      by (simp del: expand_shared_step.simps)
    from Cons.IH [OF this] show ?thesis by simp
  next
    case True
    with Cons.prems obtain e where
      "expand_steps d steps m (res @ step @ [10] @ e) = Some out"
      by (auto simp del: expand_shared_step.simps split: option.splits)
    from Cons.IH [OF this] show ?thesis by simp
  qed
qed

lemma unlines_last: "ls \<noteq> [] \<Longrightarrow> last (unlines ls) = 10"
  by (induction ls) (auto simp: unlines_def)

lemma unlines_Nil_iff: "unlines ls = [] \<longleftrightarrow> ls = []"
  by (cases ls) simp_all

lemma lines_form_last: "lines_form t \<Longrightarrow> t \<noteq> [] \<Longrightarrow> last t = 10"
  unfolding lines_form_def using unlines_last unlines_Nil_iff by metis

lemma unlines_breaks:
  "list_all no_break ls \<Longrightarrow> c \<in> set (unlines ls) \<Longrightarrow> is_linebreak c \<Longrightarrow> c = 10"
  by (induction ls) (auto simp: no_break_def list_all_iff)

lemma lines_form_breaks: "lines_form t \<Longrightarrow> c \<in> set t \<Longrightarrow> is_linebreak c \<Longrightarrow> c = 10"
  unfolding lines_form_def using unlines_breaks by blast

lemma splitlines_single: "no_break s \<Longrightarrow> s \<noteq> [] \<Longrightarrow> splitlines k s = [s]"
proof -
  assume nb: "no_break s" and ne: "s \<noteq> []"
  from nb have "\<forall>c\<in>set s. \<not> is_linebreak c" by (simp add: no_break_def list_all_iff)
  then have tw: "takeWhile (\<lambda>x. \<not> is_linebreak x) s = s"
    and dw: "dropWhile (\<lambda>x. \<not> is_linebreak x) s = []"
    by simp_all
  show ?thesis
    by (subst splitlines_nonempty [OF ne]) (simp only: Let_def tw dw list.case)
qed

lemma leading_whitespace:
  "2 + length step - length (lstrip step) = 2 + length (takeWhile is_space step)"
proof -
  have "length (takeWhile is_space step) + length (dropWhile is_space step) = length step"
    by (metis length_append takeWhile_dropWhile_id)
  then show ?thesis by (simp add: lstrip_def)
qed

lemma startswith_iff: "startswith s p \<longleftrightarrow> take (length p) s = p"
  by (induction s p rule: startswith.induct) auto

lemma replace_once_prefix: "startswith s p \<Longrightarrow> replace_once s p new = new @ drop (length p) s"
  by (cases s) (auto simp: startswith_iff)

lemma startswith_rest: "startswith s p \<Longrightarrow> drop (length p) s = [] \<longleftrightarrow> s = p"
  by (metis append_Nil2 append_take_drop_id startswith_iff drop_eq_Nil nat_le_linear)

section \<open>Evaluation on concrete strings\<close>

lemma replicate_numeral: "replicate (numeral k) x = x # replicate (pred_numeral k) x"
  by (simp add: numeral_eq_Suc)

lemmas string_eval = replicate_numeral
  py_def strip_def lstrip_def rstrip_def is_space_def is_linebreak_def isspace_def
  prefixes_def extract_shared_step_name_def shared_step_name_candidate_iterator_def
  candidates_loop.simps re_sub.simps splitlines.simps(2) textwrap_indent_def
  calculate_total_step_count_def Let_def

lemma startswith_short: "startswith s p \<Longrightarrow> length s \<le> length p \<Longrightarrow> s = p"
  using startswith_rest [of s p] by simp

lemma extract_nonempty_iff:
  "extract_shared_step_name l \<noteq> [] \<longleftrightarrow>
     (startswith (strip l) (py ''Shared step:'') \<and> strip l \<noteq> py ''Shared step:'') \<or>
     (startswith (strip l) [20849, 26377, 12473, 12486, 12483, 12503, 58] \<and>
      strip l \<noteq> [20849, 26377, 12473, 12486, 12483, 12503, 58])"
proof -
  define s where "s = strip l"
  define p1 where "p1 = py ''Shared step:''"
  define p2 :: pystr where "p2 = [20849, 26377, 12473, 12486, 12483, 12503, 58]"
  have ex: "extract_shared_step_name l = extract_with [p1, p2] s"
    by (simp add: extract_shared_step_name_def prefixes_def s_def p1_def p2_def)
  have not_both: "\<not> (startswith s p1 \<and> startswith s p2)"
    by (cases s) (simp_all add: p1_def p2_def py_def)
  show ?thesis
    unfolding s_def [symmetric] p1_def [symmetric] p2_def [symmetric] ex
    using not_both
    by (auto simp: replace_once_prefix dest: startswith_short)
qed

section \<open>Facts about the paging loop\<close>

lemma stops_not_with_items: "page_with_items f s \<Longrightarrow> \<not> stops_with f s result"
  by (cases s) (auto split: prod.splits sum.splits)

lemma runs_pages_zero: "\<not> runs_pages 0 f s result"
  by (simp add: runs_pages_def)

lemma runs_pages_stop:
  assumes "\<not> page_with_items f s"
  shows "runs_pages (Suc fuel) f s result \<longleftrightarrow> stops_with f s result"
proof
  assume "runs_pages (Suc fuel) f s result"
  then obtain k where k: "\<forall>i<k. page_with_items f ((next_page f ^^ i) s)"
    and stop: "stops_with f ((next_page f ^^ k) s) result"
    by (auto simp: runs_pages_def)
  have "k = 0"
  proof (rule ccontr)
    assume "k \<noteq> 0"
    then have "0 < k" by simp
    with k have "page_with_items f ((next_page f ^^ 0) s)" by blast
    with assms show False by simp
  qed
  with stop show "stops_with f s result" by simp
next
  assume "stops_with f s result"
  then have "(\<forall>i<0. page_with_items f ((next_page f ^^ i) s)) \<and>
      stops_with f ((next_page f ^^ 0) s) result" by simp
  then show "runs_pages (Suc fuel) f s result"
    unfolding runs_pages_def by blast
qed

lemma runs_pages_more:
  assumes "page_with_items f s"
  shows "runs_pages (Suc fuel) f s result \<longleftrightarrow> runs_pages fuel f (next_page f s) result"
proof
  assume "runs_pages (Suc fuel) f s result"
  then obtain k where kf: "k < Suc fuel"
    and k: "\<forall>i<k. page_with_items f ((next_page f ^^ i) s)"
    and stop: "stops_with f ((next_page f ^^ k) s) result"
    by (auto simp: runs_pages_def)
  from stop assms stops_not_with_items [of f s result] have "k \<noteq> 0"
    by (cases k) auto
  then obtain k' where k': "k = Suc k'" by (cases k) auto
  have "\<forall>i<k'. page_with_items f ((next_page f ^^ i) (next_page f s))"
  proof (intro allI impI)
    fix i assume "i < k'"
    then have "Suc i < k" using k' by simp
    with k have "page_with_items f ((next_page f ^^ Suc i) s)" by blast
    then show "page_with_items f ((next_page f ^^ i) (next_page f s))"
      by (simp add: funpow_swap1)
  qed
  moreover from stop k' have "stops_with f ((next_page f ^^ k') (next_page f s)) result"
    by (simp add: funpow_swap1)
  moreover from kf k' have "k' < fuel" by simp
  ultimately show "runs_pages fuel f (next_page f s) result"
    unfolding runs_pages_def by blast
next
  assume "runs_pages fuel f (next_page f s) result"
  then obtain k where kf: "k < fuel"
    and k: "\<forall>i<k. page_with_items f ((next_page f ^^ i) (next_page f s))"
    and stop: "stops_with f ((next_page f ^^ k) (next_page f s)) result"
    by (auto simp: runs_pages_def)
  have "\<forall>i<Suc k. page_with_items f ((next_page f ^^ i) s)"
  proof (intro allI impI)
    fix i assume i: "i < Suc k"
    show "page_with_items f ((next_page f ^^ i) s)"
    proof (cases i)
      case 0
      with assms show ?thesis by simp
    next
      case (Suc j)
      with i have "j < k" by simp
      with k have "page_with_items f ((next_page f ^^ j) (next_page f s))" by blast
      with Suc show ?thesis by (simp add: funpow_swap1)
    qed
  qed
  moreover from stop have "stops_with f ((next_page f ^^ Suc k) s) result"
    by (simp add: funpow_swap1)
  moreover from kf have "Suc k < Suc fuel" by simp
  ultimately show "runs_pages (Suc fuel) f s result"
    unfolding runs_pages_def by blast
qed

lemma paged_loop_stop:
  assumes "\<not> page_with_items f (c, a, w)"
  shows "paged_loop (Suc fuel) f c a w = Some result \<longleftrightarrow> stops_with f (c, a, w) result"
  using assms by (auto split: prod.splits sum.splits)

lemma paged_loop_more:
  assumes "page_with_items f (c, a, w)"
  shows "paged_loop (Suc fuel) f c a w =
         (case next_page f (c, a, w) of (c', a', w') \<Rightarrow> paged_loop fuel f c' a' w')"
  using assms by (auto split: prod.splits sum.splits)

lemma paged_loop_runs:
  "paged_loop fuel f c a w = Some result \<longleftrightarrow> runs_pages fuel f (c, a, w) result"
proof (induction fuel arbitrary: c a w)
  case 0
  show ?case by (simp add: runs_pages_zero)
next
  case (Suc fuel)
  show ?case
  proof (cases "page_with_items f (c, a, w)")
    case False
    from paged_loop_stop [OF False] runs_pages_stop [OF False]
    show ?thesis by blast
  next
    case True
    obtain c' a' w' where nxt: "next_page f (c, a, w) = (c', a', w')"
      by (cases "next_page f (c, a, w)")
    have "paged_loop (Suc fuel) f c a w = paged_loop fuel f c' a' w'"
      using paged_loop_more [OF True, of fuel] nxt by simp
    moreover have "runs_pages (Suc fuel) f (c, a, w) result \<longleftrightarrow>
        runs_pages fuel f (c', a', w') result"
      using runs_pages_more [OF True, of fuel result] nxt by simp
    ultimately show ?thesis using Suc.IH [of c' a' w'] by simp
  qed
qed

lemma paged_loop_None:
  "paged_loop fuel f c a w = None \<Longrightarrow>
   \<forall>i<fuel. page_with_items f ((next_page f ^^ i) (c, a, w))"
proof (induction fuel arbitrary: c a w)
  case 0
  show ?case by simp
next
  case (Suc fuel)
  have here: "page_with_items f (c, a, w)"
    using Suc.prems by (auto split: prod.splits sum.splits if_splits)
  obtain c' a' w' where nxt: "next_page f (c, a, w) = (c', a', w')"
    by (cases "next_page f (c, a, w)")
  from Suc.prems paged_loop_more [OF here, of fuel] nxt
  have "paged_loop fuel f c' a' w' = None" by simp
  from Suc.IH [OF this] have rest: "\<forall>i<fuel. page_with_items f ((next_page f ^^ i) (c', a', w'))" .
  show ?case
  proof (intro allI impI)
    fix i assume i: "i < Suc fuel"
    show "page_with_items f ((next_page f ^^ i) (c, a, w))"
    proof (cases i)
      case 0
      with here show ?thesis by simp
    next
      case (Suc j)
      with i rest have "page_with_items f ((next_page f ^^ j) (c', a', w'))" by simp
      with Suc nxt show ?thesis by (simp add: funpow_swap1)
    qed
  qed
qed

lemma get_full_shared_steps_None:
  assumes "get_full_shared_steps fuel self org proj w = None"
  shows "\<forall>i<fuel. page_with_items (shared_steps_page self org proj)
           ((next_page (shared_steps_page self org proj) ^^ i) (1, [], w))"
proof -
  from assms have "paged_loop fuel (shared_steps_page self org proj) 1 [] w = None"
    by (auto simp: get_full_shared_steps_def collect_pages_def split: option.splits sum.splits)
  then show ?thesis by (rule paged_loop_None)
qed

lemma get_full_test_cases_None:
  assumes "get_full_test_cases fuel self org proj numbers w = None"
  shows "numbers = None \<and>
         (\<forall>i<fuel. page_with_items (test_cases_page self org proj)
            ((next_page (test_cases_page self org proj) ^^ i) (1, [], w)))"
proof -
  from assms have n: "numbers = None"
    by (cases numbers) (simp_all add: get_full_test_cases_def)
  with assms have "paged_loop fuel (test_cases_page self org proj) 1 [] w = None"
    by (auto simp: get_full_test_cases_def collect_pages_def split: option.splits sum.splits)
  from paged_loop_None [OF this] n show ?thesis by (rule conjI [rotated])
qed

section \<open>Facts about observed runs\<close>

lemma verdict_Inr [simp]: "verdict (Inr d) log = no_failure log"
  by (simp add: verdict_def)

lemma verdict_Inl [simp]: "verdict (Inl m) log = stopped_at_failure log m"
  by (simp add: verdict_def)

lemma make_api_request_logged:
  assumes "no_failure log"
    and "make_api_request (logged urlopen) url params (w, log) = (r, s')"
  shows "verdict r (snd s')"
proof -
  define full where "full = (case params of None \<Rightarrow> url
    | Some (key, v) \<Rightarrow> url @ py ''?'' @ key @ py ''='' @ str_int v)"
  obtain t w' where t: "urlopen full w = (t, w')" by (cases "urlopen full w")
  have lg: "logged urlopen full (w, log) = (t, (w', log @ [(full, error_detail t)]))"
    by (simp add: logged_def t)
  from assms(2) have r: "(case (t, (w', log @ [(full, error_detail t)])) of
           (Ok data, w') \<Rightarrow> (Inr data, w')
         | (HTTPError code reason, w') \<Rightarrow>
             (Inl (py ''Error: '' @ full @ py '' - '' @ str_int code @ py '' - '' @ reason), w')
         | (Failure e, w') \<Rightarrow> (Inl (py ''Error: '' @ full @ py '' - '' @ e), w')) = (r, s')"
    unfolding make_api_request_def full_def [symmetric] Let_def lg .
  show ?thesis
  proof (cases t)
    case (Ok data)
    with r assms(1) show ?thesis
      by (auto simp: no_failure_def error_detail_def)
  next
    case (HTTPError code reason)
    with r assms(1) show ?thesis
      by (auto simp: stopped_at_failure_def error_detail_def)
  next
    case (Failure e)
    with r assms(1) show ?thesis
      by (auto simp: stopped_at_failure_def error_detail_def)
  qed
qed

lemma paged_loop_logged:
  assumes f: "\<And>c s r s'. no_failure (snd s) \<Longrightarrow> f c s = (r, s') \<Longrightarrow> verdict r (snd s')"
  shows "no_failure (snd s) \<Longrightarrow> paged_loop fuel f c a s = Some (r, s') \<Longrightarrow> verdict r (snd s')"
proof (induction fuel arbitrary: c a s)
  case 0
  then show ?case by simp
next
  case (Suc fuel)
  obtain r1 s1 where step: "f c s = (r1, s1)" by (cases "f c s")
  from f [OF Suc.prems(1) step] have v: "verdict r1 (snd s1)" .
  show ?case
  proof (cases r1)
    case (Inl message)
    with Suc.prems(2) step v show ?thesis by auto
  next
    case (Inr items)
    show ?thesis
    proof (cases "items = []")
      case True
      with Inr Suc.prems(2) step v show ?thesis by auto
    next
      case False
      with Inr Suc.prems(2) step
      have "paged_loop fuel f (number (last items) + 1) (a @ items) s1 = Some (r, s')"
        by simp
      moreover from v Inr have "no_failure (snd s1)" by simp
      ultimately show ?thesis using Suc.IH by blast
    qed
  qed
qed

lemma fetch_each_logged:
  assumes f: "\<And>n s r s'. no_failure (snd s) \<Longrightarrow> f n s = (r, s') \<Longrightarrow> verdict r (snd s')"
  shows "no_failure (snd s) \<Longrightarrow> fetch_each f ns acc s = (r, s') \<Longrightarrow> verdict r (snd s')"
proof (induction ns arbitrary: acc s)
  case Nil
  then show ?case by auto
next
  case (Cons n ns)
  obtain r1 s1 where step: "f n s = (r1, s1)" by (cases "f n s")
  from f [OF Cons.prems(1) step] have v: "verdict r1 (snd s1)" .
  show ?case
  proof (cases r1)
    case (Inl message)
    with Cons.prems(2) step v show ?thesis by auto
  next
    case (Inr data)
    with Cons.prems(2) step have "fetch_each f ns (acc @ [data]) s1 = (r, s')" by simp
    moreover from v Inr have "no_failure (snd s1)" by simp
    ultimately show ?thesis using Cons.IH by blast
  qed
qed

lemma page_requests_logged:
  "no_failure (snd s) \<Longrightarrow> shared_steps_page (logged_service self) org proj c s = (r, s')
   \<Longrightarrow> verdict r (snd s')"
  "no_failure (snd s) \<Longrightarrow> test_cases_page (logged_service self) org proj c s = (r, s')
   \<Longrightarrow> verdict r (snd s')"
  by (cases s; simp add: shared_steps_page_def test_cases_page_def get_shared_steps_def
        get_test_cases_def logged_service_def make_api_request_logged)+

lemma record_requests_logged:
  "no_failure (snd s) \<Longrightarrow> get_shared_step (logged_service self) org proj n s = (r1, s')
   \<Longrightarrow> verdict r1 (snd s')"
  "no_failure (snd s) \<Longrightarrow> get_test_case (logged_service self) org proj n s = (r1, s')
   \<Longrightarrow> verdict r1 (snd s')"
  by (cases s; simp add: get_shared_step_def get_test_case_def logged_service_def
        make_api_request_logged)+

lemma get_full_shared_steps_logged:
  assumes "no_failure (snd s)"
    and "get_full_shared_steps fuel (logged_service self) org proj s = Some (r, s')"
  shows "verdict r (snd s')"
proof -
  from assms(2) obtain r1 s1 where
    pages: "paged_loop fuel (shared_steps_page (logged_service self) org proj) 1 [] s = Some (r1, s1)"
    by (auto simp: get_full_shared_steps_def collect_pages_def split: option.splits)
  have v1: "verdict r1 (snd s1)"
    using assms(1) pages
    by (rule paged_loop_logged [rotated]) (rule page_requests_logged(1))
  show ?thesis
  proof (cases r1)
    case (Inl message)
    with assms(2) pages v1 show ?thesis
      by (auto simp: get_full_shared_steps_def collect_pages_def)
  next
    case (Inr all_items)
    with assms(2) pages have each:
      "fetch_each (get_shared_step (logged_service self) org proj) (map number all_items) [] s1
         = (r, s')"
      by (simp add: get_full_shared_steps_def collect_pages_def)
    from v1 Inr have "no_failure (snd s1)" by simp
    then show ?thesis
      using each by (rule fetch_each_logged [rotated]) (rule record_requests_logged(1))
  qed
qed

lemma get_full_test_cases_logged:
  assumes "no_failure (snd s)"
    and "get_full_test_cases fuel (logged_service self) org proj numbers s = Some (r, s')"
  shows "verdict r (snd s')"
proof (cases numbers)
  case (Some ns)
  with assms(2) have each:
    "fetch_each (get_test_case (logged_service self) org proj) ns [] s = (r, s')"
    by (simp add: get_full_test_cases_def)
  from assms(1) each show ?thesis
    by (rule fetch_each_logged [rotated]) (rule record_requests_logged(2))
next
  case None
  with assms(2) obtain r1 s1 where
    pages: "paged_loop fuel (test_cases_page (logged_service self) org proj) 1 [] s = Some (r1, s1)"
    by (auto simp: get_full_test_cases_def collect_pages_def split: option.splits)
  have v1: "verdict r1 (snd s1)"
    using assms(1) pages
    by (rule paged_loop_logged [rotated]) (rule page_requests_logged(2))
  show ?thesis
  proof (cases r1)
    case (Inl message)
    with assms(2) pages v1 None show ?thesis
      by (auto simp: get_full_test_cases_def collect_pages_def)
  next
    case (Inr all_items)
    with assms(2) pages None have each:
      "fetch_each (get_test_case (logged_service self) org proj) (map number all_items) [] s1
         = (r, s')"
      by (simp add: get_full_test_cases_def collect_pages_def)
    from v1 Inr have "no_failure (snd s1)" by simp
    then show ?thesis
      using each by (rule fetch_each_logged [rotated]) (rule record_requests_logged(2))
  qed
qed

lemma main_body_logged:
  assumes "no_failure (snd s)"
    and "main_body fuel (logged_service self) org proj numbers s = Some (out, s')"
  shows "case out of Exit status message \<Rightarrow> status = 1 \<and> stopped_at_failure (snd s') message
         | Printed test_cases \<Rightarrow> no_failure (snd s')"
proof -
  from assms(2) obtain r1 s1 where
    first: "get_full_shared_steps fuel (logged_service self) org proj s = Some (r1, s1)"
    by (auto simp: main_body_def split: option.splits)
  from get_full_shared_steps_logged [OF assms(1) first] have v1: "verdict r1 (snd s1)" .
  show ?thesis
  proof (cases r1)
    case (Inl message)
    with assms(2) first v1 show ?thesis by (auto simp: main_body_def)
  next
    case (Inr shared_steps)
    with v1 have ok1: "no_failure (snd s1)" by simp
    from assms(2) first Inr obtain r2 s2 where
      second: "get_full_test_cases fuel (logged_service self) org proj numbers s1 = Some (r2, s2)"
      by (auto simp: main_body_def split: option.splits)
    from get_full_test_cases_logged [OF ok1 second] have v2: "verdict r2 (snd s2)" .
    show ?thesis
    proof (cases r2)
      case (Inl message)
      with assms(2) first second \<open>r1 = Inr shared_steps\<close> v2 show ?thesis
        by (auto simp: main_body_def)
    next
      case (Inr test_cases)
      with assms(2) first second \<open>r1 = Inr shared_steps\<close> v2 show ?thesis
        by (auto simp: main_body_def split: option.splits)
    qed
  qed
qed

section \<open>Facts about the depth of the expansion\<close>

text \<open>
  The expansion returns as soon as the depth allows for the nesting of the groups, and a
  result it returns at one depth it returns at every greater depth.
\<close>

lemma set_map_filter_iff: "y \<in> set (List.map_filter f xs) \<longleftrightarrow> (\<exists>x\<in>set xs. f x = Some y)"
  by (induction xs) (auto simp: map_filter_simps split: option.splits)

lemma referenced_iff:
  "g \<in> set (referenced m t) \<longleftrightarrow>
     (\<exists>line\<in>set (splitlines False t). extract_shared_step_name line \<noteq> [] \<and>
        first_known_candidate
          (shared_step_name_candidate_iterator (extract_shared_step_name line)) m = Some g)"
  by (auto simp: referenced_def set_map_filter_iff split: if_splits)

lemma first_known_candidate_ran: "first_known_candidate cs m = Some g \<Longrightarrow> g \<in> ran m"
  by (induction cs) (auto split: option.splits intro: ranI)

lemma expand_steps_returns:
  "(\<And>line. line \<in> set ls \<Longrightarrow> extract_shared_step_name line \<noteq> [] \<Longrightarrow>
      expand_shared_step d (extract_shared_step_name line) m
        (2 + length line - length (lstrip line)) \<noteq> None)
   \<Longrightarrow> expand_steps d ls m res \<noteq> None"
proof (induction ls arbitrary: res)
  case Nil
  show ?case by simp
next
  case (Cons step steps)
  have rest: "expand_steps d steps m r \<noteq> None" for r
  proof (rule Cons.IH)
    fix line
    assume "line \<in> set steps" "extract_shared_step_name line \<noteq> []"
    then show "expand_shared_step d (extract_shared_step_name line) m
        (2 + length line - length (lstrip line)) \<noteq> None"
      using Cons.prems [of line] by (simp del: expand_shared_step.simps)
  qed
  show ?case
  proof (cases "extract_shared_step_name step \<noteq> []")
    case False
    with rest show ?thesis by (simp del: expand_shared_step.simps)
  next
    case True
    with Cons.prems [of step] obtain e where
      "expand_shared_step d (extract_shared_step_name step) m
         (2 + length step - length (lstrip step)) = Some e"
      by (auto simp del: expand_shared_step.simps)
    with True rest show ?thesis by (simp del: expand_shared_step.simps)
  qed
qed

lemma expansion_returns:
  assumes acyclic: "\<forall>g\<in>ran m. \<forall>g'\<in>set (referenced m (human_readable_steps g)). rank g' < rank g"
  shows "\<forall>g\<in>set (referenced m t). rank g < n \<Longrightarrow>
         human_readable_steps_with_shared_steps_expanded (Suc n) t m \<noteq> None"
proof (induction n arbitrary: t)
  case 0
  then have none: "referenced m t = []" by (cases "referenced m t") auto
  have "expand_steps 0 (splitlines False t) m [] \<noteq> None"
  proof (rule expand_steps_returns)
    fix line
    assume line: "line \<in> set (splitlines False t)" "extract_shared_step_name line \<noteq> []"
    have "first_known_candidate
        (shared_step_name_candidate_iterator (extract_shared_step_name line)) m = None"
    proof (rule ccontr)
      assume "first_known_candidate
        (shared_step_name_candidate_iterator (extract_shared_step_name line)) m \<noteq> None"
      then obtain g where "first_known_candidate
        (shared_step_name_candidate_iterator (extract_shared_step_name line)) m = Some g"
        by auto
      with line have "g \<in> set (referenced m t)" by (auto simp: referenced_iff)
      with none show False by simp
    qed
    then show "expand_shared_step 0 (extract_shared_step_name line) m
        (2 + length line - length (lstrip line)) \<noteq> None"
      by simp
  qed
  then show ?case by simp
next
  case (Suc n)
  have "expand_steps (Suc n) (splitlines False t) m [] \<noteq> None"
  proof (rule expand_steps_returns)
    fix line
    assume line: "line \<in> set (splitlines False t)" "extract_shared_step_name line \<noteq> []"
    show "expand_shared_step (Suc n) (extract_shared_step_name line) m
        (2 + length line - length (lstrip line)) \<noteq> None"
    proof (cases "first_known_candidate
        (shared_step_name_candidate_iterator (extract_shared_step_name line)) m")
      case None
      then show ?thesis by simp
    next
      case (Some g)
      with line have ref: "g \<in> set (referenced m t)" by (auto simp: referenced_iff)
      with Suc.prems have "rank g < Suc n" by blast
      moreover from Some have "g \<in> ran m" by (rule first_known_candidate_ran)
      ultimately have "\<forall>g'\<in>set (referenced m (human_readable_steps g)). rank g' < n"
        using acyclic by fastforce
      from Suc.IH [OF this]
      have "human_readable_steps_with_shared_steps_expanded (Suc n) (human_readable_steps g) m
          \<noteq> None" .
      with Some show ?thesis by simp
    qed
  qed
  then show ?case by simp
qed

lemma expand_steps_deeper:
  assumes ess: "\<And>nm i e. expand_shared_step d nm m i = Some e
                  \<Longrightarrow> expand_shared_step d' nm m i = Some e"
  shows "expand_steps d ls m res = Some out \<Longrightarrow> expand_steps d' ls m res = Some out"
proof (induction ls arbitrary: res)
  case Nil
  then show ?case by simp
next
  case (Cons step steps)
  show ?case
  proof (cases "extract_shared_step_name step \<noteq> []")
    case False
    with Cons.prems have "expand_steps d steps m (res @ step @ [10]) = Some out"
      by (simp del: expand_shared_step.simps)
    from Cons.IH [OF this] False show ?thesis by (simp del: expand_shared_step.simps)
  next
    case True
    with Cons.prems obtain e where
      e: "expand_shared_step d (extract_shared_step_name step) m
            (2 + length step - length (lstrip step)) = Some e"
      and cont: "expand_steps d steps m (res @ step @ [10] @ e) = Some out"
      by (auto simp del: expand_shared_step.simps split: option.splits)
    from ess [OF e] Cons.IH [OF cont] True show ?thesis
      by (simp del: expand_shared_step.simps)
  qed
qed

lemma expansion_deeper:
  "human_readable_steps_with_shared_steps_expanded d t m = Some out \<Longrightarrow>
   human_readable_steps_with_shared_steps_expanded (Suc d) t m = Some out"
proof (induction d arbitrary: t out)
  case 0
  then show ?case by simp
next
  case (Suc d)
  have ess: "expand_shared_step (Suc d) nm m i = Some e"
    if "expand_shared_step d nm m i = Some e" for nm i e
    using that Suc.IH by (auto split: option.splits)
  from Suc.prems have "expand_steps d (splitlines False t) m [] = Some out" by simp
  then have "expand_steps (Suc d) (splitlines False t) m [] = Some out"
    by (rule expand_steps_deeper [rotated]) (rule ess)
  then show ?case by simp
qed

lemma expanded_output_form:
  assumes "human_readable_steps_with_shared_steps_expanded depth t m = Some out"
  shows "out = unlines (splitlines False out) \<and>
         (\<forall>c\<in>set out. is_linebreak c \<longrightarrow> c = 10) \<and>
         (t = [] \<longrightarrow> out = []) \<and>
         (t \<noteq> [] \<longrightarrow> out \<noteq> [] \<and> last out = 10) \<and>
         (t \<noteq> [] \<and> last t \<noteq> 10 \<longrightarrow> out \<noteq> t)"
proof -
  from expanded_lines_form [OF assms] have lf: "lines_form out" .
  then have form: "out = unlines (splitlines False out)"
    by (simp add: lines_form_iff)
  have breaks: "\<forall>c\<in>set out. is_linebreak c \<longrightarrow> c = 10"
    using lines_form_breaks [OF lf] by blast
  from assms obtain d where d: "depth = Suc d"
    by (cases depth) simp_all
  with assms have run: "expand_steps d (splitlines False t) m [] = Some out"
    by simp
  have empty: "out = []" if "t = []"
    using run that by simp
  have nonempty: "out \<noteq> [] \<and> last out = 10" if "t \<noteq> []"
  proof -
    from that have "splitlines False t \<noteq> []"
      by (simp add: splitlines_Nil_iff)
    with expand_steps_grows [OF run] have "out \<noteq> []" by auto
    with lines_form_last [OF lf] show ?thesis by simp
  qed
  from form breaks empty nonempty show ?thesis by metis
qed

section \<open>The claims about the expansion\<close>

text \<open>
  Claim C1 says that the candidates of \<open>"Login (2) (email: xxx.com, password: 123456)"\<close> are
  the full string, \<open>"Login (2)"\<close> and \<open>"Login"\<close>, and that \<open>"Login (2) (email: a@b.com)"\<close>
  resolves to the group \<open>"Login (2)"\<close> when the table holds both \<open>"Login"\<close> and
  \<open>"Login (2)"\<close>. The code does otherwise: the greedy pattern matches from the first opening
  parenthesis to the end, so one substitution removes both groups. The candidates are the
  full string and \<open>"Login"\<close> only, and the reference resolves to the group \<open>"Login"\<close>.
\<close>

theorem login_candidates_skip_inner_group:
  "shared_step_name_candidate_iterator (py ''Login (2) (email: xxx.com, password: 123456)'') =
     [py ''Login (2) (email: xxx.com, password: 123456)'', py ''Login''] \<and>
   first_known_candidate
     (shared_step_name_candidate_iterator (py ''Login (2) (email: a@b.com)''))
     [py ''Login'' \<mapsto> g1, py ''Login (2)'' \<mapsto> g2] = Some g1"
  by (simp add: string_eval)

text \<open>
  Claim C2: in a table whose only entry is the group named \<open>"Login"\<close>, the reference
  \<open>"Login (2)"\<close> resolves to that group, as the name itself and as the name extracted from
  the line \<open>"Shared step: Login (2)"\<close>; \<open>expand_shared_step\<close> then expands the steps of that
  group.
\<close>

theorem fallback_to_bare_name:
  assumes "dom m = {py ''Login''}" and "m (py ''Login'') = Some g"
  shows "first_known_candidate (shared_step_name_candidate_iterator (py ''Login (2)'')) m = Some g \<and>
         first_known_candidate
           (shared_step_name_candidate_iterator
              (extract_shared_step_name (py ''Shared step: Login (2)''))) m = Some g \<and>
         expand_shared_step depth (py ''Login (2)'') m indent =
           map_option (\<lambda>expanded. textwrap_indent expanded (replicate indent 32))
             (human_readable_steps_with_shared_steps_expanded depth (human_readable_steps g) m)"
proof -
  have cands: "shared_step_name_candidate_iterator (py ''Login (2)'') =
      [py ''Login (2)'', py ''Login'']"
    by (simp add: string_eval)
  have cands': "shared_step_name_candidate_iterator
      (extract_shared_step_name (py ''Shared step: Login (2)'')) = [py ''Login (2)'', py ''Login'']"
    by (simp add: string_eval)
  have "py ''Login (2)'' \<notin> dom m"
    unfolding assms(1) by (simp add: py_def)
  then have none: "m (py ''Login (2)'') = None" by blast
  from none assms(2) show ?thesis
    by (simp add: cands cands')
qed

theorem fallback_to_bare_name_witness:
  "dom [py ''Login'' \<mapsto> \<lparr>number = 1, name = py ''Login'',
          human_readable_steps = py ''Enter username'', total_step_count = None\<rparr>] = {py ''Login''} \<and>
   first_known_candidate (shared_step_name_candidate_iterator (py ''Login (2)''))
     [py ''Login'' \<mapsto> \<lparr>number = 1, name = py ''Login'',
          human_readable_steps = py ''Enter username'', total_step_count = None\<rparr>] =
     Some \<lparr>number = 1, name = py ''Login'',
          human_readable_steps = py ''Enter username'', total_step_count = None\<rparr>"
proof -
  let ?g = "\<lparr>number = 1, name = py ''Login'',
          human_readable_steps = py ''Enter username'', total_step_count = None\<rparr>"
  have d: "dom [py ''Login'' \<mapsto> ?g] = {py ''Login''}" by simp
  have l: "[py ''Login'' \<mapsto> ?g] (py ''Login'') = Some ?g" by simp
  from fallback_to_bare_name [OF d l] d show ?thesis by blast
qed

text \<open>
  Claim C3, as amended: on a text without reference lines the expansion returns, at every
  depth of at least one and for every table, the lines of the text with one newline after
  each; these are the same lines in the same order, and the result is the text itself
  exactly when the text already has that form.
\<close>

theorem reference_free_expansion:
  assumes "list_all (\<lambda>l. extract_shared_step_name l = []) (splitlines False t)"
  shows "human_readable_steps_with_shared_steps_expanded (Suc depth) t m =
           Some (unlines (splitlines False t)) \<and>
         splitlines False (unlines (splitlines False t)) = splitlines False t \<and>
         (human_readable_steps_with_shared_steps_expanded (Suc depth) t m = Some t
            \<longleftrightarrow> unlines (splitlines False t) = t)"
  using assms
  by (simp add: expand_steps_reference_free splitlines_unlines splitlines_no_break)

theorem reference_free_expansion_witness:
  "list_all (\<lambda>l. extract_shared_step_name l = []) (splitlines False (py ''Click submit'')) \<and>
   human_readable_steps_with_shared_steps_expanded (Suc 0) (py ''Click submit'') Map.empty =
     Some (py ''Click submit'' @ [10]) \<and>
   splitlines False (py ''Click submit'' @ [10]) = splitlines False (py ''Click submit'')"
proof -
  have h: "list_all (\<lambda>l. extract_shared_step_name l = []) (splitlines False (py ''Click submit''))"
    by (simp add: string_eval)
  have u: "unlines (splitlines False (py ''Click submit'')) = py ''Click submit'' @ [10]"
    by (simp add: string_eval)
  from reference_free_expansion [OF h, of 0 Map.empty] h show ?thesis
    unfolding u by blast
qed

text \<open>
  Claim C3 as stated fails: the one-line text \<open>"Click submit"\<close> has no reference line, and
  its expansion is \<open>"Click submit\n"\<close>, not the text itself.
\<close>

theorem expansion_appends_final_newline:
  "list_all (\<lambda>l. extract_shared_step_name l = []) (splitlines False (py ''Click submit'')) \<and>
   human_readable_steps_with_shared_steps_expanded (Suc 0) (py ''Click submit'') Map.empty =
     Some (py ''Click submit'' @ [10]) \<and>
   human_readable_steps_with_shared_steps_expanded (Suc 0) (py ''Click submit'') Map.empty \<noteq>
     Some (py ''Click submit'')"
  by (simp add: string_eval)

text \<open>
  Claim C4, as amended: with a table that maps \<open>"Login"\<close> to a group with the steps
  \<open>"Enter username\nEnter password"\<close>, the block \<open>"Shared step: Login\nClick submit"\<close>
  expands, at every depth of at least two, to
  \<open>"Shared step: Login\n  Enter username\n  Enter password\nClick submit\n"\<close>, with a
  newline after the last line, and the step count of that text is 3.
\<close>

theorem login_scenario_expansion:
  "human_readable_steps_with_shared_steps_expanded (Suc (Suc depth))
     (py ''Shared step: Login'' @ [10] @ py ''Click submit'')
     [py ''Login'' \<mapsto> \<lparr>number = n, name = nm,
        human_readable_steps = py ''Enter username'' @ [10] @ py ''Enter password'',
        total_step_count = c\<rparr>]
   = Some (py ''Shared step: Login'' @ [10] @ py ''  Enter username'' @ [10] @
           py ''  Enter password'' @ [10] @ py ''Click submit'' @ [10]) \<and>
   calculate_total_step_count
     (py ''Shared step: Login'' @ [10] @ py ''  Enter username'' @ [10] @
      py ''  Enter password'' @ [10] @ py ''Click submit'' @ [10]) = 3"
  by (simp add: string_eval)

text \<open>
  Claim C4 as stated fails: the expansion is not the text that ends with \<open>"Click submit"\<close>.
\<close>

theorem login_scenario_ends_with_newline:
  "human_readable_steps_with_shared_steps_expanded (Suc (Suc 0))
     (py ''Shared step: Login'' @ [10] @ py ''Click submit'')
     [py ''Login'' \<mapsto> \<lparr>number = 1, name = py ''Login'',
        human_readable_steps = py ''Enter username'' @ [10] @ py ''Enter password'',
        total_step_count = None\<rparr>]
   \<noteq> Some (py ''Shared step: Login'' @ [10] @ py ''  Enter username'' @ [10] @
           py ''  Enter password'' @ [10] @ py ''Click submit'')"
  by (simp add: string_eval)

text \<open>
  Claim C5, as amended: a reference line whose name resolves to no group is no error.
  \<open>expand_shared_step\<close> returns the empty text for it, at every depth, so the loop emits the
  line and its newline and goes on with nothing appended; a block that is this one line
  expands to the line and a newline. In particular, with an empty table the block
  \<open>"Shared step: Ghost\nDo thing"\<close> expands to \<open>"Shared step: Ghost\nDo thing\n"\<close>, and the
  step count of that text is 1: the reference line is not counted.
\<close>

theorem unresolved_reference_left_verbatim:
  assumes "extract_shared_step_name step \<noteq> []"
    and "first_known_candidate
           (shared_step_name_candidate_iterator (extract_shared_step_name step)) m = None"
  shows "expand_shared_step depth (extract_shared_step_name step) m indent = Some [] \<and>
         expand_steps depth (step # steps) m res = expand_steps depth steps m (res @ step @ [10]) \<and>
         (no_break step \<longrightarrow>
            human_readable_steps_with_shared_steps_expanded (Suc depth) step m =
              Some (step @ [10])) \<and>
         human_readable_steps_with_shared_steps_expanded (Suc depth)
           (py ''Shared step: Ghost'' @ [10] @ py ''Do thing'') Map.empty =
           Some (py ''Shared step: Ghost'' @ [10] @ py ''Do thing'' @ [10]) \<and>
         calculate_total_step_count (py ''Shared step: Ghost'' @ [10] @ py ''Do thing'' @ [10]) = 1"
proof -
  have ess: "expand_shared_step depth (extract_shared_step_name step) m indent = Some []"
    for depth indent
    using assms(2) by simp
  have loop: "expand_steps depth (step # steps) m res =
      expand_steps depth steps m (res @ step @ [10])" for depth steps res
    using assms(1) ess by (simp del: expand_shared_step.simps)
  have one: "human_readable_steps_with_shared_steps_expanded (Suc depth) step m =
      Some (step @ [10])" if "no_break step"
  proof -
    from assms(1) have "step \<noteq> []"
      by (auto simp: string_eval)
    with that have "splitlines False step = [step]" by (rule splitlines_single)
    then show ?thesis using loop by simp
  qed
  have ghost: "human_readable_steps_with_shared_steps_expanded (Suc depth)
           (py ''Shared step: Ghost'' @ [10] @ py ''Do thing'') Map.empty =
           Some (py ''Shared step: Ghost'' @ [10] @ py ''Do thing'' @ [10])"
    by (simp add: string_eval)
  have count: "calculate_total_step_count
      (py ''Shared step: Ghost'' @ [10] @ py ''Do thing'' @ [10]) = 1"
    by (simp add: string_eval)
  from ess loop one ghost count show ?thesis by blast
qed

theorem unresolved_reference_left_verbatim_witness:
  "extract_shared_step_name (py ''Shared step: Ghost'') \<noteq> [] \<and>
   first_known_candidate
     (shared_step_name_candidate_iterator (extract_shared_step_name (py ''Shared step: Ghost'')))
     Map.empty = None \<and>
   no_break (py ''Shared step: Ghost'') \<and>
   expand_steps 0 [py ''Shared step: Ghost'', py ''Do thing''] Map.empty [] =
     Some (py ''Shared step: Ghost'' @ [10] @ py ''Do thing'' @ [10]) \<and>
   human_readable_steps_with_shared_steps_expanded (Suc 0) (py ''Shared step: Ghost'') Map.empty =
     Some (py ''Shared step: Ghost'' @ [10])"
proof -
  have h1: "extract_shared_step_name (py ''Shared step: Ghost'') \<noteq> []"
    by (simp add: string_eval)
  have h2: "first_known_candidate
     (shared_step_name_candidate_iterator (extract_shared_step_name (py ''Shared step: Ghost'')))
     Map.empty = None"
    by (simp add: string_eval)
  have h3: "no_break (py ''Shared step: Ghost'')"
    by (simp add: no_break_def string_eval)
  have rest: "expand_steps 0 [py ''Do thing''] Map.empty (py ''Shared step: Ghost'' @ [10]) =
     Some (py ''Shared step: Ghost'' @ [10] @ py ''Do thing'' @ [10])"
    by (simp add: string_eval)
  from unresolved_reference_left_verbatim [OF h1 h2, of 0 0 "[py ''Do thing'']" "[]"]
    h1 h2 h3 rest
  show ?thesis by simp
qed

text \<open>
  Claim C5 as stated fails in its scenario: the step count of the expanded block is 1, not 2.
\<close>

theorem ghost_scenario_counts_one_step:
  "human_readable_steps_with_shared_steps_expanded (Suc 0)
     (py ''Shared step: Ghost'' @ [10] @ py ''Do thing'') Map.empty =
     Some (py ''Shared step: Ghost'' @ [10] @ py ''Do thing'' @ [10]) \<and>
   calculate_total_step_count (py ''Shared step: Ghost'' @ [10] @ py ''Do thing'' @ [10]) = 1 \<and>
   calculate_total_step_count (py ''Shared step: Ghost'' @ [10] @ py ''Do thing'' @ [10]) \<noteq> 2"
  by (simp add: string_eval)

text \<open>
  Claim C6, as amended: when a reference line resolves to a group whose steps expand to
  \<open>body\<close>, what is appended right after the line and its newline is \<open>body\<close> line by line,
  each line that does not consist of whitespace alone behind 2 + k spaces, k the number of
  leading whitespace characters of the reference line, and each line of whitespace alone
  (an empty line too) unchanged.
\<close>

theorem resolved_reference_indents_nonblank_lines:
  assumes "extract_shared_step_name step \<noteq> []"
    and "first_known_candidate
           (shared_step_name_candidate_iterator (extract_shared_step_name step)) m = Some g"
    and "human_readable_steps_with_shared_steps_expanded depth (human_readable_steps g) m =
           Some body"
  shows "expand_shared_step depth (extract_shared_step_name step) m indent =
           Some (unlines (map (indent_line (replicate indent 32)) (splitlines False body))) \<and>
         expand_steps depth (step # steps) m res =
           expand_steps depth steps m
             (res @ step @ [10] @
              unlines (map (indent_line (replicate (2 + length (takeWhile is_space step)) 32))
                         (splitlines False body)))"
proof -
  from expanded_lines_form [OF assms(3)] have body: "unlines (splitlines False body) = body"
    by (simp add: lines_form_iff)
  have ind: "textwrap_indent body prefix =
      unlines (map (indent_line prefix) (splitlines False body))" for prefix
    using textwrap_indent_unlines [OF splitlines_no_break, of body prefix] body by simp
  have ess: "expand_shared_step depth (extract_shared_step_name step) m indent =
      Some (unlines (map (indent_line (replicate indent 32)) (splitlines False body)))" for indent
    using assms(2,3) by (simp add: ind)
  have "expand_steps depth (step # steps) m res =
      expand_steps depth steps m
        (res @ step @ [10] @
         unlines (map (indent_line (replicate (2 + length step - length (lstrip step)) 32))
                    (splitlines False body)))"
    using assms(1) ess by (simp del: expand_shared_step.simps)
  then show ?thesis using ess by (simp only: leading_whitespace simp_thms)
qed

theorem resolved_reference_indents_nonblank_lines_witness:
  "extract_shared_step_name (py ''  Shared step: G'') \<noteq> [] \<and>
   first_known_candidate
     (shared_step_name_candidate_iterator (extract_shared_step_name (py ''  Shared step: G'')))
     [py ''G'' \<mapsto> \<lparr>number = 1, name = py ''G'',
        human_readable_steps = py ''a'' @ [10, 10] @ py ''b'', total_step_count = None\<rparr>] =
     Some \<lparr>number = 1, name = py ''G'',
        human_readable_steps = py ''a'' @ [10, 10] @ py ''b'', total_step_count = None\<rparr> \<and>
   human_readable_steps_with_shared_steps_expanded (Suc 0) (py ''a'' @ [10, 10] @ py ''b'')
     [py ''G'' \<mapsto> \<lparr>number = 1, name = py ''G'',
        human_readable_steps = py ''a'' @ [10, 10] @ py ''b'', total_step_count = None\<rparr>] =
     Some (py ''a'' @ [10, 10] @ py ''b'' @ [10]) \<and>
   expand_steps (Suc 0) [py ''  Shared step: G'']
     [py ''G'' \<mapsto> \<lparr>number = 1, name = py ''G'',
        human_readable_steps = py ''a'' @ [10, 10] @ py ''b'', total_step_count = None\<rparr>] [] =
     Some (py ''  Shared step: G'' @ [10] @ py ''    a'' @ [10, 10] @ py ''    b'' @ [10])"
proof -
  let ?g = "\<lparr>number = 1, name = py ''G'',
        human_readable_steps = py ''a'' @ [10, 10] @ py ''b'', total_step_count = None\<rparr>"
  have h1: "extract_shared_step_name (py ''  Shared step: G'') \<noteq> []"
    by (simp add: string_eval)
  have h2: "first_known_candidate
     (shared_step_name_candidate_iterator (extract_shared_step_name (py ''  Shared step: G'')))
     [py ''G'' \<mapsto> ?g] = Some ?g"
    by (simp add: string_eval)
  have h3: "human_readable_steps_with_shared_steps_expanded (Suc 0) (human_readable_steps ?g)
     [py ''G'' \<mapsto> ?g] = Some (py ''a'' @ [10, 10] @ py ''b'' @ [10])"
    by (simp add: string_eval)
  have lines: "unlines (map (indent_line (replicate (2 + length (takeWhile is_space (py ''  Shared step: G''))) 32))
      (splitlines False (py ''a'' @ [10, 10] @ py ''b'' @ [10]))) =
      py ''    a'' @ [10, 10] @ py ''    b'' @ [10]"
    by (simp add: string_eval indent_line_def)
  note run = resolved_reference_indents_nonblank_lines
    [OF h1 h2 h3, of 0 "[]" "[]", THEN conjunct2, unfolded lines]
  from run h1 h2 h3 show ?thesis by simp
qed

text \<open>
  Claim C6 as stated fails: the empty line in the steps \<open>"a\n\nb"\<close> of the group is appended
  as an empty line, not as a line of two spaces.
\<close>

theorem blank_line_of_group_not_indented:
  "human_readable_steps_with_shared_steps_expanded (Suc (Suc 0)) (py ''Shared step: G'')
     [py ''G'' \<mapsto> \<lparr>number = 1, name = py ''G'',
        human_readable_steps = py ''a'' @ [10, 10] @ py ''b'', total_step_count = None\<rparr>] =
     Some (py ''Shared step: G'' @ [10] @ py ''  a'' @ [10] @ [10] @ py ''  b'' @ [10]) \<and>
   human_readable_steps_with_shared_steps_expanded (Suc (Suc 0)) (py ''Shared step: G'')
     [py ''G'' \<mapsto> \<lparr>number = 1, name = py ''G'',
        human_readable_steps = py ''a'' @ [10, 10] @ py ''b'', total_step_count = None\<rparr>] \<noteq>
     Some (py ''Shared step: G'' @ [10] @ py ''  a'' @ [10] @ py ''  '' @ [10] @ py ''  b'' @ [10])"
  by (simp add: string_eval)

text \<open>
  Claim C7: the step count is the number of lines on which the extractor yields the empty
  string; with the lines on which it yields a name, these are all the lines; so a block
  without reference lines counts all its lines. The extractor yields a name exactly on the
  lines whose stripped text starts with a marker and goes on behind it.
\<close>

theorem step_count_counts_leaf_lines:
  "calculate_total_step_count t =
     length (filter (\<lambda>l. extract_shared_step_name l = []) (splitlines False t)) \<and>
   calculate_total_step_count t +
     length (filter (\<lambda>l. extract_shared_step_name l \<noteq> []) (splitlines False t)) =
     length (splitlines False t) \<and>
   (list_all (\<lambda>l. extract_shared_step_name l = []) (splitlines False t) \<longrightarrow>
      calculate_total_step_count t = length (splitlines False t)) \<and>
   (extract_shared_step_name l \<noteq> [] \<longleftrightarrow>
      (startswith (strip l) (py ''Shared step:'') \<and> strip l \<noteq> py ''Shared step:'') \<or>
      (startswith (strip l) [20849, 26377, 12473, 12486, 12483, 12503, 58] \<and>
       strip l \<noteq> [20849, 26377, 12473, 12486, 12483, 12503, 58]))"
proof -
  have sum: "length (filter P xs) + length (filter (\<lambda>x. \<not> P x) xs) = length xs"
    for P :: "pystr \<Rightarrow> bool" and xs
    using sum_length_filter_compl [of P xs] by simp
  have all: "list_all P xs \<Longrightarrow> length (filter P xs) = length xs"
    for P :: "pystr \<Rightarrow> bool" and xs
    by (simp add: list_all_iff)
  show ?thesis
    unfolding calculate_total_step_count_def
    using sum all extract_nonempty_iff [of l] by blast
qed

theorem step_count_counts_leaf_lines_witness:
  "list_all (\<lambda>l. extract_shared_step_name l = [])
     (splitlines False (py ''Enter username'' @ [10] @ py ''Click submit'')) \<and>
   calculate_total_step_count (py ''Enter username'' @ [10] @ py ''Click submit'') = 2 \<and>
   length (splitlines False (py ''Enter username'' @ [10] @ py ''Click submit'')) = 2"
proof -
  have h: "list_all (\<lambda>l. extract_shared_step_name l = [])
     (splitlines False (py ''Enter username'' @ [10] @ py ''Click submit''))"
    by (simp add: string_eval)
  have n: "length (splitlines False (py ''Enter username'' @ [10] @ py ''Click submit'')) = 2"
    by (simp add: string_eval)
  from step_count_counts_leaf_lines [of "py ''Enter username'' @ [10] @ py ''Click submit''" "[]"]
    h n
  show ?thesis by simp
qed

section \<open>The claims about the retrieval\<close>

text \<open>
  Claim C8: the collection starts with the cursor 1 and nothing collected; it returns the
  collected items exactly when, after some number k of requests that returned items, each
  moving the cursor to the number of its last item plus one and adding its items behind
  those collected, the next request returns the empty page; the result is then what these
  k pages hold, in order. As long as every page has items the loop does not end. (A failed
  request leaves the function with the error, which is claim C9.)
\<close>

theorem paging_protocol:
  "(collect_pages fuel fetch_page w = Some (Inr all_items, w_end) \<longleftrightarrow>
      (\<exists>k<fuel.
         (\<forall>i<k. page_with_items fetch_page ((next_page fetch_page ^^ i) (1, [], w))) \<and>
         (case (next_page fetch_page ^^ k) (1, [], w) of
            (cursor, collected, w') \<Rightarrow>
              fetch_page cursor w' = (Inr [], w_end) \<and> all_items = collected))) \<and>
   ((\<forall>i. page_with_items fetch_page ((next_page fetch_page ^^ i) (1, [], w))) \<longrightarrow>
      collect_pages fuel fetch_page w = None)"
proof -
  have stop: "stops_with fetch_page s (Inr all_items, w_end) \<longleftrightarrow>
      (case s of (cursor, collected, w') \<Rightarrow>
         fetch_page cursor w' = (Inr [], w_end) \<and> all_items = collected)" for s
    by (cases s) (auto split: prod.splits sum.splits)
  have first: "collect_pages fuel fetch_page w = Some (Inr all_items, w_end) \<longleftrightarrow>
      (\<exists>k<fuel.
         (\<forall>i<k. page_with_items fetch_page ((next_page fetch_page ^^ i) (1, [], w))) \<and>
         (case (next_page fetch_page ^^ k) (1, [], w) of
            (cursor, collected, w') \<Rightarrow>
              fetch_page cursor w' = (Inr [], w_end) \<and> all_items = collected))"
    unfolding collect_pages_def paged_loop_runs runs_pages_def stop ..
  have second: "collect_pages fuel fetch_page w = None"
    if all: "\<forall>i. page_with_items fetch_page ((next_page fetch_page ^^ i) (1, [], w))"
  proof (rule ccontr)
    assume "collect_pages fuel fetch_page w \<noteq> None"
    then obtain result where "paged_loop fuel fetch_page 1 [] w = Some result"
      by (auto simp: collect_pages_def)
    then have "runs_pages fuel fetch_page (1, [], w) result"
      by (simp add: paged_loop_runs)
    then obtain k where "stops_with fetch_page ((next_page fetch_page ^^ k) (1, [], w)) result"
      by (auto simp: runs_pages_def)
    with all stops_not_with_items show False by blast
  qed
  from first second show ?thesis by blast
qed

theorem paging_protocol_witness:
  "collect_pages (Suc (Suc 0)) one_page_service 0 =
     Some (Inr [\<lparr>number = 7, name = py ''Login'', human_readable_steps = [],
                  total_step_count = None\<rparr>], Suc (Suc 0)) \<and>
   (\<exists>k<Suc (Suc 0).
      (\<forall>i<k. page_with_items one_page_service ((next_page one_page_service ^^ i) (1, [], 0))) \<and>
      (case (next_page one_page_service ^^ k) (1, [], 0) of
         (cursor, collected, w') \<Rightarrow>
           one_page_service cursor w' = (Inr [], Suc (Suc 0)) \<and>
           [\<lparr>number = 7, name = py ''Login'', human_readable_steps = [],
              total_step_count = None\<rparr>] = collected))"
proof -
  have run: "collect_pages (Suc (Suc 0)) one_page_service 0 =
     Some (Inr [\<lparr>number = 7, name = py ''Login'', human_readable_steps = [],
                  total_step_count = None\<rparr>], Suc (Suc 0))"
    by (simp add: collect_pages_def one_page_service_def)
  from paging_protocol [of "Suc (Suc 0)" one_page_service 0, THEN conjunct1] run
  show ?thesis by blast
qed

text \<open>
  Claim C9: in every run of \<open>get_full_shared_steps\<close>, \<open>get_full_test_cases\<close> and \<open>_main\<close>
  over the observed service that returns, an error result is the message of the last
  request made, composed from its URL and the detail of its failure, and no request before
  it failed; a success means that no request failed; \<open>_main\<close> ends with exit status 1 and
  that message, or prints after a run without failure. The two retrievals return within
  \<open>fuel\<close> requests unless each of the first \<open>fuel\<close> pages had items, and \<open>_main\<close> ends with
  \<open>exit(1)\<close> as soon as one of them returns an error.
\<close>

theorem fetch_error_aborts_run:
  "(get_full_shared_steps fuel (logged_service self) org proj (w, []) = Some (r, (w', log)) \<longrightarrow>
      (case r of Inl message \<Rightarrow> stopped_at_failure log message
               | Inr records \<Rightarrow> no_failure log)) \<and>
   (get_full_test_cases fuel (logged_service self) org proj numbers (w, []) = Some (r, (w', log)) \<longrightarrow>
      (case r of Inl message \<Rightarrow> stopped_at_failure log message
               | Inr records \<Rightarrow> no_failure log)) \<and>
   (main_body fuel (logged_service self) org proj numbers (w, []) = Some (out, (w', log)) \<longrightarrow>
      (case out of Exit status message \<Rightarrow> status = 1 \<and> stopped_at_failure log message
                 | Printed test_cases \<Rightarrow> no_failure log)) \<and>
   (get_full_shared_steps fuel self org proj w = None \<longrightarrow>
      (\<forall>i<fuel. page_with_items (shared_steps_page self org proj)
                  ((next_page (shared_steps_page self org proj) ^^ i) (1, [], w)))) \<and>
   (get_full_test_cases fuel self org proj numbers w = None \<longrightarrow>
      numbers = None \<and>
      (\<forall>i<fuel. page_with_items (test_cases_page self org proj)
                  ((next_page (test_cases_page self org proj) ^^ i) (1, [], w)))) \<and>
   (get_full_shared_steps fuel self org proj w = Some (Inl message, w1) \<longrightarrow>
      main_body fuel self org proj numbers w = Some (Exit 1 message, w1)) \<and>
   (get_full_shared_steps fuel self org proj w = Some (Inr shared_steps, w1) \<and>
    get_full_test_cases fuel self org proj numbers w1 = Some (Inl message, w2) \<longrightarrow>
      main_body fuel self org proj numbers w = Some (Exit 1 message, w2))"
proof -
  have nf: "no_failure (snd (w, []))" by (simp add: no_failure_def)
  have a: "get_full_shared_steps fuel (logged_service self) org proj (w, []) = Some (r, (w', log)) \<longrightarrow>
      (case r of Inl message \<Rightarrow> stopped_at_failure log message
               | Inr records \<Rightarrow> no_failure log)"
  proof
    assume "get_full_shared_steps fuel (logged_service self) org proj (w, []) = Some (r, (w', log))"
    from get_full_shared_steps_logged [OF nf this]
    show "case r of Inl message \<Rightarrow> stopped_at_failure log message | Inr records \<Rightarrow> no_failure log"
      by (simp add: verdict_def)
  qed
  have b: "get_full_test_cases fuel (logged_service self) org proj numbers (w, []) = Some (r, (w', log)) \<longrightarrow>
      (case r of Inl message \<Rightarrow> stopped_at_failure log message
               | Inr records \<Rightarrow> no_failure log)"
  proof
    assume "get_full_test_cases fuel (logged_service self) org proj numbers (w, []) = Some (r, (w', log))"
    from get_full_test_cases_logged [OF nf this]
    show "case r of Inl message \<Rightarrow> stopped_at_failure log message | Inr records \<Rightarrow> no_failure log"
      by (simp add: verdict_def)
  qed
  have c: "main_body fuel (logged_service self) org proj numbers (w, []) = Some (out, (w', log)) \<longrightarrow>
      (case out of Exit status message \<Rightarrow> status = 1 \<and> stopped_at_failure log message
                 | Printed test_cases \<Rightarrow> no_failure log)"
  proof
    assume "main_body fuel (logged_service self) org proj numbers (w, []) = Some (out, (w', log))"
    from main_body_logged [OF nf this]
    show "case out of Exit status message \<Rightarrow> status = 1 \<and> stopped_at_failure log message
                 | Printed test_cases \<Rightarrow> no_failure log"
      by (cases out) simp_all
  qed
  have d: "get_full_shared_steps fuel self org proj w = None \<longrightarrow>
      (\<forall>i<fuel. page_with_items (shared_steps_page self org proj)
                  ((next_page (shared_steps_page self org proj) ^^ i) (1, [], w)))"
    by (rule impI) (rule get_full_shared_steps_None)
  have e: "get_full_test_cases fuel self org proj numbers w = None \<longrightarrow>
      numbers = None \<and>
      (\<forall>i<fuel. page_with_items (test_cases_page self org proj)
                  ((next_page (test_cases_page self org proj) ^^ i) (1, [], w)))"
    by (rule impI) (rule get_full_test_cases_None)
  have f: "get_full_shared_steps fuel self org proj w = Some (Inl message, w1) \<longrightarrow>
      main_body fuel self org proj numbers w = Some (Exit 1 message, w1)"
    by (simp add: main_body_def)
  have g: "get_full_shared_steps fuel self org proj w = Some (Inr shared_steps, w1) \<and>
    get_full_test_cases fuel self org proj numbers w1 = Some (Inl message, w2) \<longrightarrow>
      main_body fuel self org proj numbers w = Some (Exit 1 message, w2)"
    by (simp add: main_body_def)
  show ?thesis
    by (intro conjI a b c d e f g)
qed

theorem fetch_error_aborts_run_witness:
  "main_body (Suc (Suc 0)) (logged_service flaky_service) (py ''o'') (py ''p'') None (0, []) =
     Some (Exit 1 (py ''Error: https://app.magicpod.com/api/v1.0/o/p/shared-steps/1/ - timed out''),
           (Suc (Suc (Suc 0)),
            [(py ''https://app.magicpod.com/api/v1.0/o/p/shared-steps/?min_shared_step_number=1'', None),
             (py ''https://app.magicpod.com/api/v1.0/o/p/shared-steps/?min_shared_step_number=2'', None),
             (py ''https://app.magicpod.com/api/v1.0/o/p/shared-steps/1/'', Some (py ''timed out''))])) \<and>
   stopped_at_failure
     [(py ''https://app.magicpod.com/api/v1.0/o/p/shared-steps/?min_shared_step_number=1'', None),
      (py ''https://app.magicpod.com/api/v1.0/o/p/shared-steps/?min_shared_step_number=2'', None),
      (py ''https://app.magicpod.com/api/v1.0/o/p/shared-steps/1/'', Some (py ''timed out''))]
     (py ''Error: https://app.magicpod.com/api/v1.0/o/p/shared-steps/1/ - timed out'')"
proof -
  have run: "main_body (Suc (Suc 0)) (logged_service flaky_service) (py ''o'') (py ''p'') None (0, []) =
     Some (Exit 1 (py ''Error: https://app.magicpod.com/api/v1.0/o/p/shared-steps/1/ - timed out''),
           (Suc (Suc (Suc 0)),
            [(py ''https://app.magicpod.com/api/v1.0/o/p/shared-steps/?min_shared_step_number=1'', None),
             (py ''https://app.magicpod.com/api/v1.0/o/p/shared-steps/?min_shared_step_number=2'', None),
             (py ''https://app.magicpod.com/api/v1.0/o/p/shared-steps/1/'', Some (py ''timed out''))]))"
    by (simp add: main_body_def get_full_shared_steps_def collect_pages_def shared_steps_page_def
          get_shared_steps_def get_shared_step_def make_api_request_def logged_service_def
          logged_def error_detail_def BASE_URL_def str_int_def str_nat.simps py_def Let_def
          flaky_service_def)
  from fetch_error_aborts_run [THEN conjunct2, THEN conjunct2, THEN conjunct1, rule_format, OF run]
  have st: "stopped_at_failure
     [(py ''https://app.magicpod.com/api/v1.0/o/p/shared-steps/?min_shared_step_number=1'', None),
      (py ''https://app.magicpod.com/api/v1.0/o/p/shared-steps/?min_shared_step_number=2'', None),
      (py ''https://app.magicpod.com/api/v1.0/o/p/shared-steps/1/'', Some (py ''timed out''))]
     (py ''Error: https://app.magicpod.com/api/v1.0/o/p/shared-steps/1/ - timed out'')"
    by simp
  from run st show ?thesis by (rule conjI)
qed

section \<open>The claim about the form of the output\<close>

text \<open>
  Claim C10: whenever the expansion returns, its result is its own lines with one newline
  after each, and its only line breaks are these newlines (no carriage return is left); it
  is empty for the empty input; for every other input it is not empty and ends with a
  newline, so an input with a last character other than a newline is not returned
  unchanged; and the same result is returned at the next depth. A result is produced: for
  the empty input at every depth of at least one, and for every input once the depth
  allows for the nesting of the groups, that is, when the groups of the table can be ranked
  so that each refers only to groups of smaller rank, and the groups the input refers to
  have a rank below the depth.
\<close>

theorem expansion_newline_normal_form:
  "(human_readable_steps_with_shared_steps_expanded depth t m = Some out \<longrightarrow>
      out = unlines (splitlines False out) \<and>
      (\<forall>c\<in>set out. is_linebreak c \<longrightarrow> c = 10) \<and>
      (t = [] \<longrightarrow> out = []) \<and>
      (t \<noteq> [] \<longrightarrow> out \<noteq> [] \<and> last out = 10) \<and>
      (t \<noteq> [] \<and> last t \<noteq> 10 \<longrightarrow> out \<noteq> t) \<and>
      human_readable_steps_with_shared_steps_expanded (Suc depth) t m = Some out) \<and>
   human_readable_steps_with_shared_steps_expanded (Suc depth) [] m = Some [] \<and>
   ((\<forall>g\<in>ran m. \<forall>g'\<in>set (referenced m (human_readable_steps g)). rank g' < rank g) \<and>
    (\<forall>g\<in>set (referenced m t). rank g < depth) \<longrightarrow>
      (\<exists>result. human_readable_steps_with_shared_steps_expanded (Suc depth) t m = Some result))"
proof -
  have form: "human_readable_steps_with_shared_steps_expanded depth t m = Some out \<longrightarrow>
      out = unlines (splitlines False out) \<and>
      (\<forall>c\<in>set out. is_linebreak c \<longrightarrow> c = 10) \<and>
      (t = [] \<longrightarrow> out = []) \<and>
      (t \<noteq> [] \<longrightarrow> out \<noteq> [] \<and> last out = 10) \<and>
      (t \<noteq> [] \<and> last t \<noteq> 10 \<longrightarrow> out \<noteq> t) \<and>
      human_readable_steps_with_shared_steps_expanded (Suc depth) t m = Some out"
  proof
    assume run: "human_readable_steps_with_shared_steps_expanded depth t m = Some out"
    from expanded_output_form [OF run] expansion_deeper [OF run]
    show "out = unlines (splitlines False out) \<and>
      (\<forall>c\<in>set out. is_linebreak c \<longrightarrow> c = 10) \<and>
      (t = [] \<longrightarrow> out = []) \<and>
      (t \<noteq> [] \<longrightarrow> out \<noteq> [] \<and> last out = 10) \<and>
      (t \<noteq> [] \<and> last t \<noteq> 10 \<longrightarrow> out \<noteq> t) \<and>
      human_readable_steps_with_shared_steps_expanded (Suc depth) t m = Some out"
      by (elim conjE) (intro conjI; assumption)
  qed
  have empty: "human_readable_steps_with_shared_steps_expanded (Suc depth) [] m = Some []"
    by simp
  have produced: "(\<forall>g\<in>ran m. \<forall>g'\<in>set (referenced m (human_readable_steps g)). rank g' < rank g) \<and>
    (\<forall>g\<in>set (referenced m t). rank g < depth) \<longrightarrow>
      (\<exists>result. human_readable_steps_with_shared_steps_expanded (Suc depth) t m = Some result)"
  proof
    assume h: "(\<forall>g\<in>ran m. \<forall>g'\<in>set (referenced m (human_readable_steps g)). rank g' < rank g) \<and>
      (\<forall>g\<in>set (referenced m t). rank g < depth)"
    from expansion_returns [OF h [THEN conjunct1] h [THEN conjunct2]]
    show "\<exists>result. human_readable_steps_with_shared_steps_expanded (Suc depth) t m = Some result"
      by (cases "human_readable_steps_with_shared_steps_expanded (Suc depth) t m") simp_all
  qed
  from form empty produced show ?thesis by (intro conjI)
qed

theorem expansion_newline_normal_form_witness:
  "human_readable_steps_with_shared_steps_expanded (Suc (Suc 0))
     (py ''Shared step: G'' @ [13, 10, 120])
     [py ''G'' \<mapsto> \<lparr>number = 1, name = py ''G'', human_readable_steps = [97, 13, 10, 98],
        total_step_count = None\<rparr>] =
     Some (py ''Shared step: G'' @ [10] @ py ''  a'' @ [10] @ py ''  b'' @ [10] @ [120, 10]) \<and>
   py ''Shared step: G'' @ [10] @ py ''  a'' @ [10] @ py ''  b'' @ [10] @ [120, 10] =
     unlines (splitlines False
       (py ''Shared step: G'' @ [10] @ py ''  a'' @ [10] @ py ''  b'' @ [10] @ [120, 10])) \<and>
   last (py ''Shared step: G'' @ [10] @ py ''  a'' @ [10] @ py ''  b'' @ [10] @ [120, 10]) = 10 \<and>
   py ''Shared step: G'' @ [10] @ py ''  a'' @ [10] @ py ''  b'' @ [10] @ [120, 10] \<noteq>
     py ''Shared step: G'' @ [13, 10, 120] \<and>
   human_readable_steps_with_shared_steps_expanded (Suc (Suc (Suc 0)))
     (py ''Shared step: G'' @ [13, 10, 120])
     [py ''G'' \<mapsto> \<lparr>number = 1, name = py ''G'', human_readable_steps = [97, 13, 10, 98],
        total_step_count = None\<rparr>] =
     Some (py ''Shared step: G'' @ [10] @ py ''  a'' @ [10] @ py ''  b'' @ [10] @ [120, 10]) \<and>
   referenced
     [py ''G'' \<mapsto> \<lparr>number = 1, name = py ''G'', human_readable_steps = [97, 13, 10, 98],
        total_step_count = None\<rparr>]
     (py ''Shared step: G'' @ [13, 10, 120]) =
     [\<lparr>number = 1, name = py ''G'', human_readable_steps = [97, 13, 10, 98],
        total_step_count = None\<rparr>] \<and>
   referenced
     [py ''G'' \<mapsto> \<lparr>number = 1, name = py ''G'', human_readable_steps = [97, 13, 10, 98],
        total_step_count = None\<rparr>]
     [97, 13, 10, 98] = [] \<and>
   (\<exists>result. human_readable_steps_with_shared_steps_expanded (Suc (Suc 0))
      (py ''Shared step: G'' @ [13, 10, 120])
      [py ''G'' \<mapsto> \<lparr>number = 1, name = py ''G'', human_readable_steps = [97, 13, 10, 98],
         total_step_count = None\<rparr>] = Some result)"
proof -
  define g0 where "g0 = \<lparr>number = 1, name = py ''G'', human_readable_steps = [97, 13, 10, 98],
        total_step_count = None\<rparr>"
  define m0 where "m0 = [py ''G'' \<mapsto> g0]"
  define t0 where "t0 = py ''Shared step: G'' @ [13, 10, 120]"
  define out0 where
    "out0 = py ''Shared step: G'' @ [10] @ py ''  a'' @ [10] @ py ''  b'' @ [10] @ [120, 10]"
  have run: "human_readable_steps_with_shared_steps_expanded (Suc (Suc 0)) t0 m0 = Some out0"
    by (simp add: g0_def m0_def t0_def out0_def string_eval)
  have r1: "referenced m0 t0 = [g0]"
    by (simp add: referenced_def map_filter_simps g0_def m0_def t0_def string_eval)
  have r2: "referenced m0 [97, 13, 10, 98] = []"
    by (simp add: referenced_def map_filter_simps g0_def m0_def string_eval)
  have ranks: "(\<forall>g\<in>ran m0. \<forall>g'\<in>set (referenced m0 (human_readable_steps g)). (0::nat) < 0) \<and>
      (\<forall>g\<in>set (referenced m0 t0). (0::nat) < Suc 0)"
  proof -
    have "ran m0 = {g0}" by (simp add: m0_def)
    moreover have "human_readable_steps g0 = [97, 13, 10, 98]" by (simp add: g0_def)
    ultimately show ?thesis using r2 by simp
  qed
  note form = expansion_newline_normal_form
    [of "Suc (Suc 0)" t0 m0 out0, THEN conjunct1, THEN mp, OF run]
  note produced = expansion_newline_normal_form
    [of "Suc 0" t0 m0 _ "\<lambda>g. 0", THEN conjunct2, THEN conjunct2, THEN mp, OF ranks]
  have ne: "t0 \<noteq> []" and nl: "last t0 \<noteq> 10"
    by (simp_all add: t0_def py_def)
  from form ne nl have
    "out0 = unlines (splitlines False out0)" "last out0 = 10" "out0 \<noteq> t0"
    "human_readable_steps_with_shared_steps_expanded (Suc (Suc (Suc 0))) t0 m0 = Some out0"
    by simp_all
  with run r1 r2 produced show ?thesis
    unfolding g0_def m0_def t0_def out0_def by (intro conjI)
qed

end
